theory Spec2Isabelle
  imports Main "HOL-Library.Char_ord" "HOL-Library.List_Lexorder" "HOL-Library.Sublist"
    "HOL-Library.Multiset"
begin

section \<open>Student Assistance: tasks, reminders and the calendar export\<close>

text \<open>
  The development embeds the task and reminder part of \<^verbatim>\<open>Student-Assistance.py\<close>:
  \<^verbatim>\<open>list_tasks\<close>, \<^verbatim>\<open>tasks_to_ics\<close> and the reminder loop of \<^verbatim>\<open>page_tasks\<close>, together with
  the operations of Python's \<^verbatim>\<open>datetime\<close> module that these functions call
  (\<^verbatim>\<open>fromisoformat\<close>, \<^verbatim>\<open>strftime\<close>, \<^verbatim>\<open>timedelta\<close>, subtraction and comparison).

  Text is a \<^typ>\<open>string\<close>: the bytes of the Python \<^verbatim>\<open>str\<close> in UTF-8, so that
  \<^verbatim>\<open>str.encode()\<close> is the identity on the model. Python's unbounded integers are
  \<^typ>\<open>int\<close>. An exception is a value of type \<^verbatim>\<open>exn\<close> on the left of a sum.
\<close>

subsection \<open>Exceptions\<close>

datatype exn = ValueError | TypeError | OverflowError

subsection \<open>Decimal text\<close>

definition digit_char :: "int \<Rightarrow> char" where
  "digit_char d = char_of (48 + nat d)"

definition digit_val :: "char \<Rightarrow> int option" where
  "digit_val c = (let n = (of_char c :: nat) in
     if 48 \<le> n \<and> n \<le> 57 then Some (int n - 48) else None)"

text \<open>\<^verbatim>\<open>str(n)\<close> for a non-negative integer.\<close>

fun str_nat :: "nat \<Rightarrow> string" where
  "str_nat n = (if n < 10 then [digit_char (int n)]
                else str_nat (n div 10) @ [digit_char (int (n mod 10))])"

declare str_nat.simps [simp del]

text \<open>\<^verbatim>\<open>str(n)\<close>, which is what \<^verbatim>\<open>f"{tid}"\<close> prints for an integer.\<close>

definition str_int :: "int \<Rightarrow> string" where
  "str_int n = (if n < 0 then CHR ''-'' # str_nat (nat (- n)) else str_nat (nat n))"

text \<open>The zero-padded fields of \<^verbatim>\<open>strftime\<close>: \<^verbatim>\<open>%m %d %H %M %S\<close> print two digits.\<close>

definition pad2 :: "int \<Rightarrow> string" where
  "pad2 n = [digit_char (n div 10 mod 10), digit_char (n mod 10)]"

text \<open>A run of ASCII digits read as a number; \<^term>\<open>None\<close> when a character is not a digit.\<close>

fun parse_digits_acc :: "int \<Rightarrow> string \<Rightarrow> int option" where
  "parse_digits_acc var [] = Some var"
| "parse_digits_acc var (c # cs) =
     (case digit_val c of None \<Rightarrow> None
      | Some d \<Rightarrow> parse_digits_acc (var * 10 + d) cs)"

definition parse_digits :: "string \<Rightarrow> int option" where
  "parse_digits s = parse_digits_acc 0 s"

subsection \<open>The proleptic Gregorian calendar of \<^verbatim>\<open>datetime\<close>\<close>

text \<open>
  The date arithmetic follows the reference implementation of the \<^verbatim>\<open>datetime\<close> module
  (\<^verbatim>\<open>_is_leap\<close>, \<^verbatim>\<open>_days_before_year\<close>, \<^verbatim>\<open>_days_in_month\<close>, \<^verbatim>\<open>_days_before_month\<close>,
  \<^verbatim>\<open>_ymd2ord\<close>, \<^verbatim>\<open>_ord2ymd\<close>). Day 1 is 0001-01-01; \<^verbatim>\<open>_MAXORDINAL\<close> is 9999-12-31.
\<close>

definition MINYEAR :: int where "MINYEAR = 1"
definition MAXYEAR :: int where "MAXYEAR = 9999"
definition MAXORDINAL :: int where "MAXORDINAL = 3652059"

definition is_leap :: "int \<Rightarrow> bool" where
  "is_leap y = (y mod 4 = 0 \<and> (y mod 100 \<noteq> 0 \<or> y mod 400 = 0))"

definition days_before_year :: "int \<Rightarrow> int" where
  "days_before_year y = (let y1 = y - 1 in y1 * 365 + y1 div 4 - y1 div 100 + y1 div 400)"

definition DAYS_IN_MONTH :: "int list" where
  "DAYS_IN_MONTH = [-1, 31, 28, 31, 30, 31, 30, 31, 31, 30, 31, 30, 31]"

definition DAYS_BEFORE_MONTH :: "int list" where
  "DAYS_BEFORE_MONTH = [-1, 0, 31, 59, 90, 120, 151, 181, 212, 243, 273, 304, 334]"

definition days_in_month :: "int \<Rightarrow> int \<Rightarrow> int" where
  "days_in_month y m = (if m = 2 \<and> is_leap y then 29 else DAYS_IN_MONTH ! nat m)"

definition days_before_month :: "int \<Rightarrow> int \<Rightarrow> int" where
  "days_before_month y m = DAYS_BEFORE_MONTH ! nat m + (if m > 2 \<and> is_leap y then 1 else 0)"

definition ymd2ord :: "int \<Rightarrow> int \<Rightarrow> int \<Rightarrow> int" where
  "ymd2ord y m d = days_before_year y + days_before_month y m + d"

definition DI400Y :: int where "DI400Y = 146097"
definition DI100Y :: int where "DI100Y = 36524"
definition DI4Y :: int where "DI4Y = 1461"

text \<open>
  \<^verbatim>\<open>_ord2ymd\<close>: the ordinal is split into 400-, 100-, 4- and 1-year cycles; the month is
  estimated by \<^verbatim>\<open>(n + 50) >> 5\<close> and lowered by one when the estimate is too large.
\<close>

definition ord2ymd :: "int \<Rightarrow> int \<times> int \<times> int" where
  "ord2ymd n0 =
    (let n = n0 - 1;
         n400 = n div DI400Y; n = n mod DI400Y;
         n100 = n div DI100Y; n = n mod DI100Y;
         n4 = n div DI4Y; n = n mod DI4Y;
         n1 = n div 365; n = n mod 365;
         y = n400 * 400 + 1 + n100 * 100 + n4 * 4 + n1
     in if n1 = 4 \<or> n100 = 4 then (y - 1, 12, 31)
        else
          let leapyear = (n1 = 3 \<and> (n4 \<noteq> 24 \<or> n100 = 3));
              m = (n + 50) div 32;
              preceding = DAYS_BEFORE_MONTH ! nat m + (if m > 2 \<and> leapyear then 1 else 0)
          in if preceding > n
             then (y, m - 1,
                   n - (preceding - (DAYS_IN_MONTH ! nat (m - 1)
                                     + (if m - 1 = 2 \<and> leapyear then 1 else 0))) + 1)
             else (y, m, n - preceding + 1))"

subsection \<open>\<^verbatim>\<open>timedelta\<close>\<close>

text \<open>
  A \<^verbatim>\<open>timedelta\<close> is kept normalised: \<open>0 \<le> seconds < 86400\<close>, \<open>0 \<le> microseconds < 10\<^sup>6\<close>,
  and the constructor raises \<^verbatim>\<open>OverflowError\<close> when \<open>|days| > 999999999\<close>.
\<close>

record timedelta =
  days :: int
  seconds :: int
  microseconds :: int

definition new_timedelta :: "int \<Rightarrow> int \<Rightarrow> int \<Rightarrow> exn + timedelta" where
  "new_timedelta d s us =
    (let s1 = s + us div 1000000; us1 = us mod 1000000;
         d1 = d + s1 div 86400; s2 = s1 mod 86400
     in if \<bar>d1\<bar> > 999999999 then Inl OverflowError
        else Inr \<lparr>days = d1, seconds = s2, microseconds = us1\<rparr>)"

text \<open>\<^verbatim>\<open>timedelta(hours=h)\<close> and \<^verbatim>\<open>timedelta(days=d)\<close>.\<close>

definition timedelta_hours :: "int \<Rightarrow> exn + timedelta" where
  "timedelta_hours h = new_timedelta 0 (h * 3600) 0"

definition timedelta_days :: "int \<Rightarrow> exn + timedelta" where
  "timedelta_days d = new_timedelta d 0 0"

definition timedelta_neg :: "timedelta \<Rightarrow> exn + timedelta" where
  "timedelta_neg t = new_timedelta (- days t) (- seconds t) (- microseconds t)"

definition timedelta_add :: "timedelta \<Rightarrow> timedelta \<Rightarrow> exn + timedelta" where
  "timedelta_add a b =
     new_timedelta (days a + days b) (seconds a + seconds b) (microseconds a + microseconds b)"

text \<open>Comparison of two \<^verbatim>\<open>timedelta\<close>s compares \<^verbatim>\<open>(days, seconds, microseconds)\<close>.\<close>

definition timedelta_lt :: "timedelta \<Rightarrow> timedelta \<Rightarrow> bool" where
  "timedelta_lt a b =
     (days a < days b \<or> (days a = days b \<and>
       (seconds a < seconds b \<or> (seconds a = seconds b \<and> microseconds a < microseconds b))))"

definition timedelta_us :: "timedelta \<Rightarrow> int" where
  "timedelta_us t = (days t * 86400 + seconds t) * 1000000 + microseconds t"

subsection \<open>\<^verbatim>\<open>datetime\<close>\<close>

text \<open>
  \<open>tzinfo\<close> is the UTC offset in microseconds of an aware \<^verbatim>\<open>datetime\<close>, and \<^term>\<open>None\<close> for a
  naive one.
\<close>

record datetime =
  year :: int
  month :: int
  day :: int
  hour :: int
  minute :: int
  second :: int
  microsecond :: int
  tzinfo :: "int option"

text \<open>The constructor's range checks (\<^verbatim>\<open>_check_date_fields\<close>, \<^verbatim>\<open>_check_time_fields\<close>).\<close>

definition check_date_fields :: "int \<Rightarrow> int \<Rightarrow> int \<Rightarrow> bool" where
  "check_date_fields y m d =
     (MINYEAR \<le> y \<and> y \<le> MAXYEAR \<and> 1 \<le> m \<and> m \<le> 12 \<and> 1 \<le> d \<and> d \<le> days_in_month y m)"

definition check_time_fields :: "int \<Rightarrow> int \<Rightarrow> int \<Rightarrow> int \<Rightarrow> bool" where
  "check_time_fields h mi s us =
     (0 \<le> h \<and> h \<le> 23 \<and> 0 \<le> mi \<and> mi \<le> 59 \<and> 0 \<le> s \<and> s \<le> 59 \<and> 0 \<le> us \<and> us \<le> 999999)"

definition new_datetime ::
  "int \<Rightarrow> int \<Rightarrow> int \<Rightarrow> int \<Rightarrow> int \<Rightarrow> int \<Rightarrow> int \<Rightarrow> int option \<Rightarrow> exn + datetime" where
  "new_datetime y m d h mi s us tz =
     (if check_date_fields y m d \<and> check_time_fields h mi s us
      then Inr \<lparr>year = y, month = m, day = d, hour = h, minute = mi, second = s,
                microsecond = us, tzinfo = tz\<rparr>
      else Inl ValueError)"

definition toordinal :: "datetime \<Rightarrow> int" where
  "toordinal t = ymd2ord (year t) (month t) (day t)"

definition datetime_fields :: "datetime \<Rightarrow> int list" where
  "datetime_fields t =
     [year t, month t, day t, hour t, minute t, second t, microsecond t]"

text \<open>
  \<^verbatim>\<open>datetime.fromisoformat\<close> after \<^verbatim>\<open>datetime.py\<close> of Python 3.10, the oldest interpreter that
  runs the source: it reads the format that \<^verbatim>\<open>isoformat()\<close> writes, which is the format
  \<^verbatim>\<open>page_tasks\<close> stores: \<^verbatim>\<open>YYYY-MM-DD[*HH[:MM[:SS[.fff[fff]]]][+HH:MM[:SS[.ffffff]]]]\<close>, where
  \<^verbatim>\<open>*\<close> is any one character, of one to four bytes. Everything else raises \<^verbatim>\<open>ValueError\<close>,
  as do fields out of range and an offset of 24 hours or more. Python 3.11 and later
  read more of ISO 8601 (a trailing \<^verbatim>\<open>Z\<close>, the basic format, week dates); on the strings
  that \<^verbatim>\<open>page_tasks\<close> stores all versions agree. The properties of the two loops below
  hold for whatever the parser returns: they use only whether it raised.
\<close>

definition parse_isoformat_date :: "string \<Rightarrow> (int \<times> int \<times> int) option" where
  "parse_isoformat_date dstr =
     (if length dstr = 10 \<and> dstr ! 4 = CHR ''-'' \<and> dstr ! 7 = CHR ''-''
      then case (parse_digits (take 4 dstr), parse_digits (take 2 (drop 5 dstr)),
                 parse_digits (drop 8 dstr)) of
             (Some y, Some m, Some d) \<Rightarrow> Some (y, m, d)
           | _ \<Rightarrow> None
      else None)"

definition parse_hh_mm_ss_ff :: "string \<Rightarrow> (int \<times> int \<times> int \<times> int) option" where
  "parse_hh_mm_ss_ff t =
    (let n = length t in
     if (n = 2 \<or> n = 5 \<or> n = 8 \<or> n = 12 \<or> n = 15)
        \<and> (if 5 \<le> n then t ! 2 = CHR '':'' else True)
        \<and> (if 8 \<le> n then t ! 5 = CHR '':'' else True)
        \<and> (if 12 \<le> n then t ! 8 = CHR ''.'' else True)
     then case (parse_digits (take 2 t), parse_digits (take 2 (drop 3 t)),
                parse_digits (take 2 (drop 6 t)), parse_digits (drop 9 t)) of
            (Some h, Some mi, Some s, Some f) \<Rightarrow>
               Some (h, mi, s, if n = 12 then f * 1000 else f)
          | _ \<Rightarrow> None
     else None)"

definition is_sign :: "char \<Rightarrow> bool" where
  "is_sign c = (c = CHR ''+'' \<or> c = CHR ''-'')"

definition no_sign :: "char \<Rightarrow> bool" where
  "no_sign c = (\<not> is_sign c)"

definition parse_isoformat_time ::
  "string \<Rightarrow> ((int \<times> int \<times> int \<times> int) \<times> int option) option" where
  "parse_isoformat_time tstr =
    (case parse_hh_mm_ss_ff (takeWhile no_sign tstr) of
       None \<Rightarrow> None
     | Some comps \<Rightarrow>
        (case dropWhile no_sign tstr of
           [] \<Rightarrow> Some (comps, None)
         | sign_char # tzstr \<Rightarrow>
            if length tzstr = 5 \<or> length tzstr = 8 \<or> length tzstr = 15
            then (case parse_hh_mm_ss_ff tzstr of
                    None \<Rightarrow> None
                  | Some (h, mi, s, us) \<Rightarrow>
                      let off = ((h * 3600 + mi * 60 + s) * 1000000 + us)
                                * (if sign_char = CHR ''-'' then - 1 else 1)
                      in if \<bar>off\<bar> < 86400000000 then Some (comps, Some off) else None)
            else None))"

text \<open>The number of bytes of the character that starts with the byte \<open>c\<close>.\<close>

definition utf8_width :: "char \<Rightarrow> nat" where
  "utf8_width c = (let b = (of_char c :: nat) in
     if b < 128 then 1 else if b div 16 = 14 then 3 else if b div 16 = 15 then 4 else 2)"

definition fromisoformat :: "string \<Rightarrow> exn + datetime" where
  "fromisoformat date_string =
    (case parse_isoformat_date (take 10 date_string) of
       None \<Rightarrow> Inl ValueError
     | Some (y, m, d) \<Rightarrow>
        if length date_string = 10 then new_datetime y m d 0 0 0 0 None
        else (case parse_isoformat_time
                     (drop (10 + utf8_width (date_string ! 10)) date_string) of
                None \<Rightarrow> Inl ValueError
              | Some ((h, mi, s, us), tz) \<Rightarrow> new_datetime y m d h mi s us tz))"

text \<open>
  \<^verbatim>\<open>dt_obj.strftime('%Y%m%dT%H%M%S')\<close>. The C library prints the fields; \<^verbatim>\<open>%Y\<close> is the year in
  decimal, which glibc does not pad: a year below 1000 has fewer than four digits.
\<close>

definition strftime_basic :: "datetime \<Rightarrow> string" where
  "strftime_basic t =
     str_int (year t) @ pad2 (month t) @ pad2 (day t) @ ''T''
     @ pad2 (hour t) @ pad2 (minute t) @ pad2 (second t)"

text \<open>
  \<^verbatim>\<open>datetime + timedelta\<close>: the date and time become a \<^verbatim>\<open>timedelta\<close> counted from day 0, the
  operand is added, and the sum is turned back into fields; a day outside
  \<open>1 .. MAXORDINAL\<close> raises \<^verbatim>\<open>OverflowError\<close>. \<^verbatim>\<open>datetime - timedelta\<close> adds the negation.
\<close>

definition datetime_add :: "datetime \<Rightarrow> timedelta \<Rightarrow> exn + datetime" where
  "datetime_add t other =
    (case new_timedelta (toordinal t) (hour t * 3600 + minute t * 60 + second t)
            (microsecond t) of
       Inl e \<Rightarrow> Inl e
     | Inr delta0 \<Rightarrow>
        (case timedelta_add delta0 other of
           Inl e \<Rightarrow> Inl e
         | Inr delta \<Rightarrow>
            let hh = seconds delta div 3600; rem = seconds delta mod 3600;
                mm = rem div 60; ss = rem mod 60
            in if 0 < days delta \<and> days delta \<le> MAXORDINAL
               then (case ord2ymd (days delta) of
                       (y, m, d) \<Rightarrow>
                         Inr \<lparr>year = y, month = m, day = d, hour = hh, minute = mm,
                              second = ss, microsecond = microseconds delta,
                              tzinfo = tzinfo t\<rparr>)
               else Inl OverflowError))"

definition datetime_sub_timedelta :: "datetime \<Rightarrow> timedelta \<Rightarrow> exn + datetime" where
  "datetime_sub_timedelta t other =
     (case timedelta_neg other of Inl e \<Rightarrow> Inl e | Inr n \<Rightarrow> datetime_add t n)"

text \<open>
  \<^verbatim>\<open>datetime - datetime\<close>: the difference of the fields, corrected by the offsets when both
  are aware; mixing a naive and an aware value raises \<^verbatim>\<open>TypeError\<close>.
\<close>

definition datetime_diff :: "datetime \<Rightarrow> datetime \<Rightarrow> exn + timedelta" where
  "datetime_diff a b =
    (let d = toordinal a - toordinal b;
         s = (second a + minute a * 60 + hour a * 3600)
             - (second b + minute b * 60 + hour b * 3600);
         us = microsecond a - microsecond b
     in if tzinfo a = tzinfo b then new_timedelta d s us
        else (case (tzinfo a, tzinfo b) of
                (Some myoff, Some otoff) \<Rightarrow> new_timedelta d s (us + otoff - myoff)
              | _ \<Rightarrow> Inl TypeError))"

text \<open>
  \<^verbatim>\<open>a > b\<close> on two \<^verbatim>\<open>datetime\<close>s (\<^verbatim>\<open>_cmp\<close>): the field tuples are compared when the offsets
  agree, the difference decides when both are aware, and a naive value against an aware
  one raises \<^verbatim>\<open>TypeError\<close>.
\<close>

definition datetime_gt :: "datetime \<Rightarrow> datetime \<Rightarrow> exn + bool" where
  "datetime_gt a b =
    (if tzinfo a = tzinfo b then Inr (datetime_fields b < datetime_fields a)
     else (case (tzinfo a, tzinfo b) of
             (Some myoff, Some otoff) \<Rightarrow>
               (case datetime_diff a b of
                  Inl e \<Rightarrow> Inl e
                | Inr diff \<Rightarrow> Inr (0 < timedelta_us diff))
           | _ \<Rightarrow> Inl TypeError))"

subsection \<open>Task rows\<close>

text \<open>
  A row of \<^verbatim>\<open>tasks\<close> as \<^verbatim>\<open>list_tasks\<close> selects it:
  \<^verbatim>\<open>(id, task, due_date, remind_before_hours, done, created_at, updated_at)\<close>.
  \<^verbatim>\<open>due_date\<close> and \<^verbatim>\<open>remind_before_hours\<close> are nullable columns.
\<close>

record task_row =
  tid :: int
  task :: string
  due_date :: "string option"
  remind_before :: "int option"
  done_flag :: int
  created_at :: string
  updated_at :: string

subsection \<open>\<^verbatim>\<open>tasks_to_ics\<close>\<close>

definition ics_header :: "string list" where
  "ics_header = [''BEGIN:VCALENDAR'', ''VERSION:2.0'', ''PRODID:-//StudentAssistance//EN'']"

definition vevent_lines :: "task_row \<Rightarrow> datetime \<Rightarrow> string list" where
  "vevent_lines t dt_obj =
    (let dtstamp = strftime_basic dt_obj;
         uid = ''task-'' @ str_int (tid t) @ ''@student-assist''
     in [''BEGIN:VEVENT'',
         ''UID:'' @ uid,
         ''DTSTAMP:'' @ dtstamp @ ''Z'',
         ''DTSTART:'' @ dtstamp @ ''Z'',
         ''SUMMARY:'' @ task t,
         ''END:VEVENT''])"

text \<open>
  The loop over the tasks: \<^verbatim>\<open>if not due_date: continue\<close> skips \<^verbatim>\<open>None\<close> and the empty
  string, and \<^verbatim>\<open>except Exception: continue\<close> skips a date that does not parse.
\<close>

fun ics_loop :: "string list \<Rightarrow> task_row list \<Rightarrow> string list" where
  "ics_loop lines [] = lines"
| "ics_loop lines (t # ts) =
    (case due_date t of
       None \<Rightarrow> ics_loop lines ts
     | Some due \<Rightarrow>
        if due = [] then ics_loop lines ts
        else (case fromisoformat due of
                Inl e \<Rightarrow> ics_loop lines ts
              | Inr dt_obj \<Rightarrow> ics_loop (lines @ vevent_lines t dt_obj) ts))"

definition ics_lines :: "task_row list \<Rightarrow> string list" where
  "ics_lines tasks = ics_loop ics_header tasks @ [''END:VCALENDAR'']"

text \<open>\<^verbatim>\<open>"".join(lines).encode()\<close>: the lines are joined with the empty string.\<close>

definition encode :: "string \<Rightarrow> string" where
  "encode s = s"

definition tasks_to_ics :: "task_row list \<Rightarrow> string" where
  "tasks_to_ics tasks = encode (concat (ics_lines tasks))"

subsection \<open>The reminder loop of \<^verbatim>\<open>page_tasks\<close>\<close>

text \<open>
  \<^verbatim>\<open>remind_time > now and (remind_time - now) < horizon\<close>; the second operand is evaluated
  only when the first holds. \<^verbatim>\<open>page_tasks\<close> uses \<^verbatim>\<open>timedelta(days=7)\<close>.
\<close>

definition is_upcoming :: "timedelta \<Rightarrow> datetime \<Rightarrow> datetime \<Rightarrow> exn + bool" where
  "is_upcoming horizon remind_time now =
    (case datetime_gt remind_time now of
       Inl e \<Rightarrow> Inl e
     | Inr gt \<Rightarrow>
        if gt then (case datetime_diff remind_time now of
                      Inl e \<Rightarrow> Inl e
                    | Inr d \<Rightarrow> Inr (timedelta_lt d horizon))
        else Inr False)"

definition horizon_7_days :: timedelta where
  "horizon_7_days = \<lparr>days = 7, seconds = 0, microseconds = 0\<rparr>"

text \<open>\<^verbatim>\<open>dt_obj - dt.timedelta(hours=remind_before or 0)\<close>.\<close>

definition remind_time_of :: "datetime \<Rightarrow> int option \<Rightarrow> exn + datetime" where
  "remind_time_of dt_obj remind =
    (case timedelta_hours (case remind of None \<Rightarrow> 0 | Some h \<Rightarrow> h) of
       Inl e \<Rightarrow> Inl e
     | Inr lead \<Rightarrow> datetime_sub_timedelta dt_obj lead)"

text \<open>
  The body of the \<^verbatim>\<open>try\<close>: it raises, or it appends nothing, or it appends
  \<^verbatim>\<open>(task, dt_obj, remind_time)\<close>.
\<close>

definition upcoming_try ::
  "datetime \<Rightarrow> task_row \<Rightarrow> string \<Rightarrow> exn + (string \<times> datetime \<times> datetime) option" where
  "upcoming_try now t due =
    (case fromisoformat due of
       Inl e \<Rightarrow> Inl e
     | Inr dt_obj \<Rightarrow>
        (case remind_time_of dt_obj (remind_before t) of
           Inl e \<Rightarrow> Inl e
         | Inr remind_time \<Rightarrow>
            (case is_upcoming horizon_7_days remind_time now of
               Inl e \<Rightarrow> Inl e
             | Inr b \<Rightarrow> Inr (if b then Some (task t, dt_obj, remind_time) else None))))"

fun upcoming_loop ::
  "datetime \<Rightarrow> (string \<times> datetime \<times> datetime) list \<Rightarrow> task_row list
   \<Rightarrow> (string \<times> datetime \<times> datetime) list" where
  "upcoming_loop now upcoming [] = upcoming"
| "upcoming_loop now upcoming (t # ts) =
    (case due_date t of
       None \<Rightarrow> upcoming_loop now upcoming ts
     | Some due \<Rightarrow>
        if due = [] then upcoming_loop now upcoming ts
        else (case upcoming_try now t due of
                Inl e \<Rightarrow> upcoming_loop now upcoming ts
              | Inr None \<Rightarrow> upcoming_loop now upcoming ts
              | Inr (Some entry) \<Rightarrow> upcoming_loop now (upcoming @ [entry]) ts))"

definition page_tasks_upcoming ::
  "datetime \<Rightarrow> task_row list \<Rightarrow> (string \<times> datetime \<times> datetime) list" where
  "page_tasks_upcoming now tasks = upcoming_loop now [] tasks"

text \<open>
  The end of \<^verbatim>\<open>page_tasks\<close>. The page returns at once when the listing is empty
  (\<^verbatim>\<open>if not tasks: ... return\<close>); the export button is drawn only under \<^verbatim>\<open>if upcoming:\<close>, and
  \<^verbatim>\<open>tasks_to_ics(tasks)\<close> runs when it is pressed. This is the only call of \<^verbatim>\<open>tasks_to_ics\<close>.
  The result is the exported bytes, or \<^term>\<open>None\<close> when nothing is exported.
\<close>

definition page_tasks_export :: "datetime \<Rightarrow> bool \<Rightarrow> task_row list \<Rightarrow> string option" where
  "page_tasks_export now pressed tasks =
     (if tasks = [] then None
      else if page_tasks_upcoming now tasks \<noteq> []
           then (if pressed then Some (tasks_to_ics tasks) else None)
           else None)"

subsection \<open>\<^verbatim>\<open>list_tasks\<close>\<close>

text \<open>
  The table \<^verbatim>\<open>tasks\<close> is a list of rows, each with its \<^verbatim>\<open>user_id\<close>. The query is
  \<^verbatim>\<open>SELECT ... WHERE user_id=? ORDER BY done, COALESCE(due_date,''), updated_at DESC\<close>.
  Text columns compare byte by byte, a prefix before its extensions. Rows that agree on
  all three keys are kept in table order.
\<close>

definition coalesce_due :: "task_row \<Rightarrow> string" where
  "coalesce_due t = (case due_date t of None \<Rightarrow> [] | Some d \<Rightarrow> d)"

definition order_le :: "task_row \<Rightarrow> task_row \<Rightarrow> bool" where
  "order_le a b =
     (done_flag a < done_flag b \<or> (done_flag a = done_flag b \<and>
       (coalesce_due a < coalesce_due b \<or> (coalesce_due a = coalesce_due b \<and>
          updated_at b \<le> updated_at a))))"

fun insert_row :: "task_row \<Rightarrow> task_row list \<Rightarrow> task_row list" where
  "insert_row x [] = [x]"
| "insert_row x (y # ys) = (if order_le x y then x # y # ys else y # insert_row x ys)"

definition order_by :: "task_row list \<Rightarrow> task_row list" where
  "order_by rows = foldr insert_row rows []"

definition rows_of_user :: "int \<Rightarrow> (int \<times> task_row) list \<Rightarrow> task_row list" where
  "rows_of_user user_id table = map snd (filter (\<lambda>r. fst r = user_id) table)"

definition list_tasks :: "int \<Rightarrow> (int \<times> task_row) list \<Rightarrow> task_row list" where
  "list_tasks user_id table = order_by (rows_of_user user_id table)"

subsection \<open>Notions used to state the properties\<close>

text \<open>The due date of a task when it is present, not empty, and parses.\<close>

definition parsed_due :: "task_row \<Rightarrow> datetime option" where
  "parsed_due t =
     (case due_date t of
        None \<Rightarrow> None
      | Some due \<Rightarrow> if due = [] then None
                    else (case fromisoformat due of Inl e \<Rightarrow> None | Inr d \<Rightarrow> Some d))"

definition dated :: "task_row \<Rightarrow> bool" where
  "dated t = (parsed_due t \<noteq> None)"

text \<open>The \<^verbatim>\<open>VEVENT\<close> block of one task, if it has one.\<close>

definition event_block :: "task_row \<Rightarrow> string list option" where
  "event_block t = map_option (vevent_lines t) (parsed_due t)"

text \<open>The reminder entry of one task, if it has one.\<close>

definition upcoming_entry :: "datetime \<Rightarrow> task_row \<Rightarrow> (string \<times> datetime \<times> datetime) option" where
  "upcoming_entry now t =
     (case due_date t of
        None \<Rightarrow> None
      | Some due \<Rightarrow> if due = [] then None
                    else (case upcoming_try now t due of Inl e \<Rightarrow> None | Inr r \<Rightarrow> r))"

text \<open>The \<^verbatim>\<open>(UID, DTSTART, SUMMARY)\<close> triple that the export writes for a dated task.\<close>

definition event_triple :: "task_row \<Rightarrow> datetime \<Rightarrow> string \<times> string \<times> string" where
  "event_triple t d =
     (''task-'' @ str_int (tid t) @ ''@student-assist'', strftime_basic d @ ''Z'', task t)"

definition task_triples :: "task_row list \<Rightarrow> (string \<times> string \<times> string) list" where
  "task_triples tasks = List.map_filter (\<lambda>t. map_option (event_triple t) (parsed_due t)) tasks"

text \<open>
  Reading the events back from a list of content lines: the calendar header, then blocks
  of six lines \<^verbatim>\<open>BEGIN:VEVENT\<close>, \<^verbatim>\<open>UID:\<close>, \<^verbatim>\<open>DTSTAMP:\<close>, \<^verbatim>\<open>DTSTART:\<close>, \<^verbatim>\<open>SUMMARY:\<close>,
  \<^verbatim>\<open>END:VEVENT\<close>, then \<^verbatim>\<open>END:VCALENDAR\<close>.
\<close>

fun read_events :: "string list \<Rightarrow> (string \<times> string \<times> string) list option" where
  "read_events (b # u # st # sd # sm # e # rest) =
     (if b = ''BEGIN:VEVENT'' \<and> take 4 u = ''UID:'' \<and> take 8 st = ''DTSTAMP:''
         \<and> take 8 sd = ''DTSTART:'' \<and> take 8 sm = ''SUMMARY:'' \<and> e = ''END:VEVENT''
      then map_option (\<lambda>evs. (drop 4 u, drop 8 sd, drop 8 sm) # evs) (read_events rest)
      else None)"
| "read_events ls = (if ls = [''END:VCALENDAR''] then Some [] else None)"

definition read_calendar :: "string list \<Rightarrow> (string \<times> string \<times> string) list option" where
  "read_calendar ls =
     (if take 3 ls = ics_header then read_events (drop 3 ls) else None)"

text \<open>
  The order that the specification asks of the task listing: \<^verbatim>\<open>done\<close> ascending, then
  \<^verbatim>\<open>dueAt\<close> ascending with an absent \<^verbatim>\<open>dueAt\<close> last, then \<^verbatim>\<open>updatedAt\<close> descending.
\<close>

definition spec_due_lt :: "string option \<Rightarrow> string option \<Rightarrow> bool" where
  "spec_due_lt a b =
     (case a of None \<Rightarrow> False
      | Some x \<Rightarrow> (case b of None \<Rightarrow> True | Some y \<Rightarrow> x < y))"

definition spec_order_le :: "task_row \<Rightarrow> task_row \<Rightarrow> bool" where
  "spec_order_le a b =
     (done_flag a < done_flag b \<or> (done_flag a = done_flag b \<and>
       (spec_due_lt (due_date a) (due_date b) \<or> (due_date a = due_date b \<and>
          updated_at b \<le> updated_at a))))"

subsection \<open>Example rows\<close>

definition essay :: task_row where
  "essay = \<lparr>tid = 1, task = ''Essay'', due_date = Some ''2025-03-10T09:00:00'',
            remind_before = Some 2, done_flag = 0,
            created_at = ''2025-03-01T10:00:00'', updated_at = ''2025-03-01T10:00:00''\<rparr>"

definition no_due :: task_row where
  "no_due = \<lparr>tid = 2, task = ''Read'', due_date = None,
            remind_before = Some 0, done_flag = 0,
            created_at = ''2025-03-02T10:00:00'', updated_at = ''2025-03-02T10:00:00''\<rparr>"

definition bad_due :: task_row where
  "bad_due = \<lparr>tid = 3, task = ''Lab'', due_date = Some ''next week'',
            remind_before = None, done_flag = 1,
            created_at = ''2025-03-03T10:00:00'', updated_at = ''2025-03-03T10:00:00''\<rparr>"

definition quiz_done :: task_row where
  "quiz_done = \<lparr>tid = 4, task = ''Quiz'', due_date = Some ''2025-03-12'',
            remind_before = Some 24, done_flag = 1,
            created_at = ''2025-03-04T10:00:00'', updated_at = ''2025-03-05T10:00:00''\<rparr>"

definition now_0308 :: datetime where
  "now_0308 = \<lparr>year = 2025, month = 3, day = 8, hour = 9, minute = 0, second = 0,
               microsecond = 0, tzinfo = None\<rparr>"

definition dt_0310_0900 :: datetime where
  "dt_0310_0900 = \<lparr>year = 2025, month = 3, day = 10, hour = 9, minute = 0, second = 0,
               microsecond = 0, tzinfo = None\<rparr>"

definition dt_0310_0700 :: datetime where
  "dt_0310_0700 = \<lparr>year = 2025, month = 3, day = 10, hour = 7, minute = 0, second = 0,
               microsecond = 0, tzinfo = None\<rparr>"

definition dt_0312 :: datetime where
  "dt_0312 = \<lparr>year = 2025, month = 3, day = 12, hour = 0, minute = 0, second = 0,
               microsecond = 0, tzinfo = None\<rparr>"

definition dt_0311 :: datetime where
  "dt_0311 = \<lparr>year = 2025, month = 3, day = 11, hour = 0, minute = 0, second = 0,
               microsecond = 0, tzinfo = None\<rparr>"

text \<open>The columns of a row that the calendar export reads.\<close>

definition row_key :: "task_row \<Rightarrow> int \<times> string \<times> string option" where
  "row_key t = (tid t, task t, due_date t)"

text \<open>
  Three rows with the same due date: the description of \<open>injected\<close> is the description
  of \<open>plain_x\<close> followed by the text that the export writes between two events.
\<close>

definition plain_x :: task_row where
  "plain_x = \<lparr>tid = 1, task = ''x'', due_date = Some ''2025-03-10T09:00:00'',
            remind_before = Some 0, done_flag = 0,
            created_at = ''2025-03-01T10:00:00'', updated_at = ''2025-03-01T10:00:00''\<rparr>"

definition plain_y :: task_row where
  "plain_y = \<lparr>tid = 2, task = ''y'', due_date = Some ''2025-03-10T09:00:00'',
            remind_before = Some 0, done_flag = 0,
            created_at = ''2025-03-01T10:00:00'', updated_at = ''2025-03-01T10:00:00''\<rparr>"

definition injected :: task_row where
  "injected = \<lparr>tid = 1,
            task = ''xEND:VEVENTBEGIN:VEVENTUID:task-2@student-assistDTSTAMP:20250310T090000ZDTSTART:20250310T090000ZSUMMARY:y'',
            due_date = Some ''2025-03-10T09:00:00'',
            remind_before = Some 0, done_flag = 0,
            created_at = ''2025-03-01T10:00:00'', updated_at = ''2025-03-01T10:00:00''\<rparr>"

text \<open>
  A second row without a due date, updated later than \<open>no_due\<close>, a row of another user, and
  a table of the two users.
\<close>

definition untimed :: task_row where
  "untimed = \<lparr>tid = 5, task = ''Walk'', due_date = None,
            remind_before = Some 0, done_flag = 0,
            created_at = ''2025-03-06T10:00:00'', updated_at = ''2025-03-06T10:00:00''\<rparr>"

definition other_user_task :: task_row where
  "other_user_task = \<lparr>tid = 7, task = ''Shop'', due_date = Some ''2025-03-09T18:00:00'',
            remind_before = Some 1, done_flag = 0,
            created_at = ''2025-03-05T10:00:00'', updated_at = ''2025-03-05T10:00:00''\<rparr>"

definition example_table :: "(int \<times> task_row) list" where
  "example_table =
     [(1, essay), (2, other_user_task), (1, no_due), (1, quiz_done), (1, untimed)]"

text \<open>
  The values that the constructors build: a \<^verbatim>\<open>datetime\<close> whose fields pass the range checks,
  and a \<^verbatim>\<open>timedelta\<close> whose seconds and microseconds are reduced.
\<close>

definition valid_datetime :: "datetime \<Rightarrow> bool" where
  "valid_datetime t =
     (check_date_fields (year t) (month t) (day t)
      \<and> check_time_fields (hour t) (minute t) (second t) (microsecond t))"

definition normalised :: "timedelta \<Rightarrow> bool" where
  "normalised t =
     (0 \<le> seconds t \<and> seconds t < 86400 \<and> 0 \<le> microseconds t \<and> microseconds t < 1000000)"

text \<open>The point of time that the fields denote, in microseconds from the start of day 0.\<close>

definition instant_us :: "datetime \<Rightarrow> int" where
  "instant_us t =
     (toordinal t * 86400 + hour t * 3600 + minute t * 60 + second t) * 1000000
     + microsecond t"

definition dt_0331 :: datetime where
  "dt_0331 = \<lparr>year = 2025, month = 3, day = 31, hour = 0, minute = 0, second = 0,
               microsecond = 0, tzinfo = None\<rparr>"

text \<open>The first \<^verbatim>\<open>datetime\<close> that there is, and the one two hours later.\<close>

definition dt_0001 :: datetime where
  "dt_0001 = \<lparr>year = 1, month = 1, day = 1, hour = 0, minute = 0, second = 0,
               microsecond = 0, tzinfo = None\<rparr>"

definition dt_0001_0200 :: datetime where
  "dt_0001_0200 = \<lparr>year = 1, month = 1, day = 1, hour = 2, minute = 0, second = 0,
               microsecond = 0, tzinfo = None\<rparr>"

section \<open>Properties\<close>

subsection \<open>The loops as maps\<close>

lemma ics_loop_append:
  "ics_loop lines tasks = lines @ concat (List.map_filter event_block tasks)"
proof (induction tasks arbitrary: lines)
  case Nil
  show ?case by simp
next
  case (Cons t ts)
  show ?case
    by (simp add: Cons.IH event_block_def parsed_due_def
             split: option.split sum.split)
qed

lemma ics_lines_eq:
  "ics_lines tasks = ics_header @ concat (List.map_filter event_block tasks) @ [''END:VCALENDAR'']"
  by (simp add: ics_lines_def ics_loop_append)

lemma upcoming_loop_append:
  "upcoming_loop now acc tasks = acc @ List.map_filter (upcoming_entry now) tasks"
proof (induction tasks arbitrary: acc)
  case Nil
  show ?case by simp
next
  case (Cons t ts)
  show ?case
    by (simp add: Cons.IH upcoming_entry_def
             split: option.split sum.split)
qed

lemma map_filter_filter_Some:
  "List.map_filter f (filter (\<lambda>x. f x \<noteq> None) xs) = List.map_filter f xs"
  by (induction xs) (auto split: option.split)

lemma map_filter_append:
  "List.map_filter f (xs @ ys) = List.map_filter f xs @ List.map_filter f ys"
  by (simp add: List.map_filter_def)

lemma map_filter_map:
  "List.map_filter f (map g xs) = List.map_filter (f \<circ> g) xs"
  by (simp add: List.map_filter_def filter_map comp_def)

lemma map_filter_mem:
  "x \<in> set xs \<Longrightarrow> f x = Some y \<Longrightarrow> y \<in> set (List.map_filter f xs)"
  by (simp add: List.map_filter_def image_iff) (metis option.sel option.distinct(1))

lemma map_filter_cong_key:
  assumes "map k xs = map k ys" and "\<And>a b. k a = k b \<Longrightarrow> f a = f b"
  shows "List.map_filter f xs = List.map_filter f ys"
proof -
  have len: "length xs = length ys"
    using assms(1) by (rule map_eq_imp_length_eq)
  from len assms(1) show ?thesis
  proof (induction xs ys rule: list_induct2)
    case Nil
    show ?case by simp
  next
    case (Cons x xs y ys)
    from Cons.prems have kx: "k x = k y" and rest: "map k xs = map k ys"
      by simp_all
    have "f x = f y"
      using kx by (rule assms(2))
    with Cons.IH [OF rest] show ?case
      by (cases "f y") simp_all
  qed
qed

lemma subseq_map_filter:
  "(\<And>x y. f x = Some y \<Longrightarrow> g y = h x)
   \<Longrightarrow> subseq (map g (List.map_filter f xs)) (map h xs)"
  by (induction xs) (auto split: option.split)

lemma event_block_dated:
  "List.map_filter event_block (filter dated tasks) = List.map_filter event_block tasks"
  by (induction tasks) (auto simp: dated_def event_block_def split: option.split)

lemma upcoming_entry_dated:
  "List.map_filter (upcoming_entry now) (filter dated tasks)
   = List.map_filter (upcoming_entry now) tasks"
  by (induction tasks)
     (auto simp: dated_def upcoming_entry_def upcoming_try_def parsed_due_def
           split: option.split sum.split)

lemma upcoming_entry_task: "upcoming_entry now t = Some e \<Longrightarrow> fst e = task t"
  by (auto simp: upcoming_entry_def upcoming_try_def
           split: option.splits sum.splits if_splits)

lemma event_block_key: "row_key a = row_key b \<Longrightarrow> event_block a = event_block b"
  by (auto simp: row_key_def event_block_def parsed_due_def vevent_lines_def
           split: option.split sum.split)

lemma upcoming_try_done:
  "upcoming_try now (t\<lparr>done_flag := d\<rparr>) due = upcoming_try now t due"
  by (simp add: upcoming_try_def split: sum.split)

lemma upcoming_entry_done:
  "upcoming_entry now (t\<lparr>done_flag := d\<rparr>) = upcoming_entry now t"
  by (simp add: upcoming_entry_def upcoming_try_done cong: option.case_cong if_cong)

lemma vevent_lines_done: "vevent_lines (t\<lparr>done_flag := d\<rparr>) = vevent_lines t"
  by (rule ext) (simp add: vevent_lines_def)

lemma event_block_done: "event_block (t\<lparr>done_flag := d\<rparr>) = event_block t"
  by (simp add: event_block_def parsed_due_def vevent_lines_done)

subsection \<open>Evaluations on the example rows\<close>

lemma fromisoformat_essay: "fromisoformat ''2025-03-10T09:00:00'' = Inr dt_0310_0900"
  by code_simp

lemma fromisoformat_quiz: "fromisoformat ''2025-03-12'' = Inr dt_0312"
  by code_simp

lemma fromisoformat_bad: "fromisoformat ''next week'' = Inl ValueError"
  by code_simp

lemma event_block_no_due: "event_block no_due = None"
  by (simp add: event_block_def parsed_due_def no_due_def)

lemma event_block_bad_due: "event_block bad_due = None"
  by (simp add: event_block_def parsed_due_def bad_due_def fromisoformat_bad)

lemma event_block_essay:
  "event_block essay =
     Some [''BEGIN:VEVENT'', ''UID:task-1@student-assist'', ''DTSTAMP:20250310T090000Z'',
           ''DTSTART:20250310T090000Z'', ''SUMMARY:Essay'', ''END:VEVENT'']"
  by code_simp

lemma event_block_quiz:
  "event_block quiz_done =
     Some [''BEGIN:VEVENT'', ''UID:task-4@student-assist'', ''DTSTAMP:20250312T000000Z'',
           ''DTSTART:20250312T000000Z'', ''SUMMARY:Quiz'', ''END:VEVENT'']"
  by code_simp

lemma upcoming_entry_no_due: "upcoming_entry now_0308 no_due = None"
  by (simp add: upcoming_entry_def no_due_def)

lemma upcoming_entry_bad_due: "upcoming_entry now_0308 bad_due = None"
  by (simp add: upcoming_entry_def upcoming_try_def bad_due_def fromisoformat_bad)

lemma upcoming_entry_essay:
  "upcoming_entry now_0308 essay = Some (''Essay'', dt_0310_0900, dt_0310_0700)"
  by code_simp

lemma upcoming_entry_quiz:
  "upcoming_entry now_0308 quiz_done = Some (''Quiz'', dt_0312, dt_0311)"
  by code_simp

subsection \<open>The calendar export\<close>

text \<open>
  C5. \<^verbatim>\<open>tasks_to_ics\<close> is total: the only operation of its body that can raise is
  \<^verbatim>\<open>fromisoformat\<close>, and the loop continues with the next task when it does. For every
  task list the output is the header, the \<^verbatim>\<open>VEVENT\<close> blocks of the tasks that have one, in
  input order, and the footer. A task whose due date is absent, empty or does not parse
  has no block, removing such tasks does not change the output, and every other task has
  its block.
\<close>

theorem tasks_to_ics_skips_undated:
  "tasks_to_ics tasks =
     encode (concat (ics_header @ concat (List.map_filter event_block tasks)
                     @ [''END:VCALENDAR'']))
   \<and> tasks_to_ics (filter dated tasks) = tasks_to_ics tasks
   \<and> (\<forall>t. (due_date t = None \<or> due_date t = Some []
            \<or> (\<exists>due e. due_date t = Some due \<and> fromisoformat due = Inl e))
          \<longrightarrow> event_block t = None)
   \<and> (\<forall>t d. parsed_due t = Some d \<longrightarrow> event_block t = Some (vevent_lines t d))"
proof (intro conjI)
  show "tasks_to_ics tasks =
     encode (concat (ics_header @ concat (List.map_filter event_block tasks)
                     @ [''END:VCALENDAR'']))"
    by (simp add: tasks_to_ics_def ics_lines_eq)
  show "tasks_to_ics (filter dated tasks) = tasks_to_ics tasks"
    by (simp add: tasks_to_ics_def ics_lines_eq event_block_dated)
  show "\<forall>t. (due_date t = None \<or> due_date t = Some []
            \<or> (\<exists>due e. due_date t = Some due \<and> fromisoformat due = Inl e))
          \<longrightarrow> event_block t = None"
    by (auto simp: event_block_def parsed_due_def)
  show "\<forall>t d. parsed_due t = Some d \<longrightarrow> event_block t = Some (vevent_lines t d)"
    by (simp add: event_block_def)
qed

theorem tasks_to_ics_skips_undated_witness:
  "tasks_to_ics [no_due, essay, bad_due, quiz_done] =
     ''BEGIN:VCALENDARVERSION:2.0PRODID:-//StudentAssistance//ENBEGIN:VEVENTUID:task-1@student-assistDTSTAMP:20250310T090000ZDTSTART:20250310T090000ZSUMMARY:EssayEND:VEVENTBEGIN:VEVENTUID:task-4@student-assistDTSTAMP:20250312T000000ZDTSTART:20250312T000000ZSUMMARY:QuizEND:VEVENTEND:VCALENDAR''
   \<and> due_date no_due = None \<and> event_block no_due = None
   \<and> fromisoformat ''next week'' = Inl ValueError \<and> event_block bad_due = None"
proof -
  note th = tasks_to_ics_skips_undated [of "[no_due, essay, bad_due, quiz_done]"]
  from th have e: "tasks_to_ics [no_due, essay, bad_due, quiz_done] =
     encode (concat (ics_header
       @ concat (List.map_filter event_block [no_due, essay, bad_due, quiz_done])
       @ [''END:VCALENDAR'']))"
    by (rule conjunct1)
  have m: "List.map_filter event_block [no_due, essay, bad_due, quiz_done] =
     [[''BEGIN:VEVENT'', ''UID:task-1@student-assist'', ''DTSTAMP:20250310T090000Z'',
       ''DTSTART:20250310T090000Z'', ''SUMMARY:Essay'', ''END:VEVENT''],
      [''BEGIN:VEVENT'', ''UID:task-4@student-assist'', ''DTSTAMP:20250312T000000Z'',
       ''DTSTART:20250312T000000Z'', ''SUMMARY:Quiz'', ''END:VEVENT'']]"
    by (simp add: event_block_no_due event_block_bad_due event_block_essay event_block_quiz)
  have out: "tasks_to_ics [no_due, essay, bad_due, quiz_done] =
     ''BEGIN:VCALENDARVERSION:2.0PRODID:-//StudentAssistance//ENBEGIN:VEVENTUID:task-1@student-assistDTSTAMP:20250310T090000ZDTSTART:20250310T090000ZSUMMARY:EssayEND:VEVENTBEGIN:VEVENTUID:task-4@student-assistDTSTAMP:20250312T000000ZDTSTART:20250312T000000ZSUMMARY:QuizEND:VEVENTEND:VCALENDAR''"
    unfolding e m by (simp add: encode_def ics_header_def)
  have nd: "due_date no_due = None"
    by (simp add: no_due_def)
  show ?thesis
    by (intro conjI)
       (rule out, rule nd, rule event_block_no_due, rule fromisoformat_bad,
        rule event_block_bad_due)
qed

text \<open>
  C7. The export is a function of the \<^verbatim>\<open>id\<close>, \<^verbatim>\<open>task\<close> and \<^verbatim>\<open>due_date\<close> columns of the rows
  alone: two snapshots that agree on these columns give the same bytes. Nothing else,
  and in particular no clock, enters the output; \<^verbatim>\<open>DTSTAMP\<close> is the due date.
\<close>

theorem tasks_to_ics_deterministic:
  assumes "map row_key a = map row_key b"
  shows "tasks_to_ics a = tasks_to_ics b"
proof -
  have "List.map_filter event_block a = List.map_filter event_block b"
    using assms event_block_key by (rule map_filter_cong_key)
  then show ?thesis
    by (simp only: tasks_to_ics_def ics_lines_eq)
qed

theorem tasks_to_ics_deterministic_witness:
  "map row_key [essay, no_due] =
     map row_key [essay\<lparr>updated_at := ''2025-03-09T08:00:00''\<rparr>, no_due\<lparr>remind_before := Some 5\<rparr>]
   \<and> tasks_to_ics [essay, no_due] =
     tasks_to_ics [essay\<lparr>updated_at := ''2025-03-09T08:00:00''\<rparr>, no_due\<lparr>remind_before := Some 5\<rparr>]"
proof -
  have k: "map row_key [essay, no_due] =
     map row_key [essay\<lparr>updated_at := ''2025-03-09T08:00:00''\<rparr>, no_due\<lparr>remind_before := Some 5\<rparr>]"
    by (simp add: row_key_def)
  show ?thesis
    by (rule conjI [OF k tasks_to_ics_deterministic [OF k]])
qed

subsection \<open>The reminder loop\<close>

text \<open>
  C4. The reminder loop appends in input order and never reorders: its result is the
  list of the entries of the tasks that have one, in the order of the input, so the
  descriptions form a subsequence of the input's and the loop distributes over
  concatenation. A task whose due date is absent or does not parse is skipped and leaves
  the rest of the result unchanged.
\<close>

theorem planner_keeps_input_order:
  "page_tasks_upcoming now tasks = List.map_filter (upcoming_entry now) tasks
   \<and> subseq (map fst (page_tasks_upcoming now tasks)) (map task tasks)
   \<and> page_tasks_upcoming now (xs @ ys)
       = page_tasks_upcoming now xs @ page_tasks_upcoming now ys
   \<and> page_tasks_upcoming now (filter dated tasks) = page_tasks_upcoming now tasks"
  by (simp add: page_tasks_upcoming_def upcoming_loop_append map_filter_append
        upcoming_entry_dated subseq_map_filter upcoming_entry_task)

theorem planner_keeps_input_order_witness:
  "page_tasks_upcoming now_0308 [no_due, quiz_done, bad_due, essay] =
     [(''Quiz'', dt_0312, dt_0311), (''Essay'', dt_0310_0900, dt_0310_0700)]
   \<and> subseq [''Quiz'', ''Essay''] (map task [no_due, quiz_done, bad_due, essay])"
proof -
  note th = planner_keeps_input_order
              [of now_0308 "[no_due, quiz_done, bad_due, essay]" "[]" "[]"]
  have e: "List.map_filter (upcoming_entry now_0308) [no_due, quiz_done, bad_due, essay]
           = [(''Quiz'', dt_0312, dt_0311), (''Essay'', dt_0310_0900, dt_0310_0700)]"
    by (simp add: upcoming_entry_no_due upcoming_entry_bad_due upcoming_entry_essay
          upcoming_entry_quiz)
  from th have p: "page_tasks_upcoming now_0308 [no_due, quiz_done, bad_due, essay]
           = List.map_filter (upcoming_entry now_0308) [no_due, quiz_done, bad_due, essay]"
    by (rule conjunct1)
  have a: "page_tasks_upcoming now_0308 [no_due, quiz_done, bad_due, essay] =
     [(''Quiz'', dt_0312, dt_0311), (''Essay'', dt_0310_0900, dt_0310_0700)]"
    by (rule trans [OF p e])
  from th have "subseq (map fst (page_tasks_upcoming now_0308 [no_due, quiz_done, bad_due, essay]))
                  (map task [no_due, quiz_done, bad_due, essay])"
    by (rule conjunct1 [OF conjunct2])
  then have b: "subseq [''Quiz'', ''Essay''] (map task [no_due, quiz_done, bad_due, essay])"
    unfolding a by simp
  from a b show ?thesis
    by (rule conjI)
qed

subsection \<open>The exported bytes\<close>

lemma read_events_block:
  "read_events (vevent_lines t d @ rest)
   = map_option (\<lambda>evs. event_triple t d # evs) (read_events rest)"
  by (simp add: vevent_lines_def event_triple_def Let_def)

lemma read_events_blocks:
  "read_events (concat (List.map_filter event_block tasks) @ [''END:VCALENDAR''])
   = Some (task_triples tasks)"
proof (induction tasks)
  case Nil
  show ?case by (simp add: task_triples_def)
next
  case (Cons t ts)
  show ?case
  proof (cases "parsed_due t")
    case None
    with Cons.IH show ?thesis
      by (simp add: event_block_def task_triples_def)
  next
    case (Some d)
    have "read_events (concat (List.map_filter event_block (t # ts)) @ [''END:VCALENDAR''])
          = read_events (vevent_lines t d
               @ (concat (List.map_filter event_block ts) @ [''END:VCALENDAR'']))"
      using Some by (simp add: event_block_def)
    also have "\<dots> = map_option (\<lambda>evs. event_triple t d # evs)
                  (read_events (concat (List.map_filter event_block ts) @ [''END:VCALENDAR'']))"
      by (rule read_events_block)
    also have "\<dots> = Some (event_triple t d # task_triples ts)"
      by (simp add: Cons.IH)
    also have "\<dots> = Some (task_triples (t # ts))"
      using Some by (simp add: task_triples_def)
    finally show ?thesis .
  qed
qed

lemma take_drop_header:
  "take 3 (ics_header @ xs) = ics_header \<and> drop 3 (ics_header @ xs) = xs"
  by (simp add: ics_header_def)

lemma parsed_due_essay: "parsed_due essay = Some dt_0310_0900"
  by code_simp

lemma parsed_due_quiz: "parsed_due quiz_done = Some dt_0312"
  by code_simp



lemma tasks_to_ics_injected:
  "tasks_to_ics [injected] =
     ''BEGIN:VCALENDARVERSION:2.0PRODID:-//StudentAssistance//ENBEGIN:VEVENTUID:task-1@student-assistDTSTAMP:20250310T090000ZDTSTART:20250310T090000ZSUMMARY:xEND:VEVENTBEGIN:VEVENTUID:task-2@student-assistDTSTAMP:20250310T090000ZDTSTART:20250310T090000ZSUMMARY:yEND:VEVENTEND:VCALENDAR''"
  by code_simp

lemma tasks_to_ics_plain:
  "tasks_to_ics [plain_x, plain_y] =
     ''BEGIN:VCALENDARVERSION:2.0PRODID:-//StudentAssistance//ENBEGIN:VEVENTUID:task-1@student-assistDTSTAMP:20250310T090000ZDTSTART:20250310T090000ZSUMMARY:xEND:VEVENTBEGIN:VEVENTUID:task-2@student-assistDTSTAMP:20250310T090000ZDTSTART:20250310T090000ZSUMMARY:yEND:VEVENTEND:VCALENDAR''"
  by code_simp

lemma task_triples_injected:
  "task_triples [injected] =
     [(''task-1@student-assist'', ''20250310T090000Z'',
       ''xEND:VEVENTBEGIN:VEVENTUID:task-2@student-assistDTSTAMP:20250310T090000ZDTSTART:20250310T090000ZSUMMARY:y'')]"
  by code_simp

lemma task_triples_plain:
  "task_triples [plain_x, plain_y] =
     [(''task-1@student-assist'', ''20250310T090000Z'', ''x''),
      (''task-2@student-assist'', ''20250310T090000Z'', ''y'')]"
  by code_simp

lemma task_triples_examples:
  "task_triples [no_due, essay, bad_due, quiz_done] =
     [(''task-1@student-assist'', ''20250310T090000Z'', ''Essay''),
      (''task-4@student-assist'', ''20250312T000000Z'', ''Quiz'')]"
  by code_simp

lemma ics_lines_read_back:
  "read_calendar (ics_lines tasks) = Some (task_triples tasks)"
  by (simp only: read_calendar_def ics_lines_eq take_drop_header read_events_blocks
        simp_thms if_True)

lemma tasks_to_ics_essay:
  "tasks_to_ics [essay] =
     ''BEGIN:VCALENDARVERSION:2.0PRODID:-//StudentAssistance//ENBEGIN:VEVENTUID:task-1@student-assistDTSTAMP:20250310T090000ZDTSTART:20250310T090000ZSUMMARY:EssayEND:VEVENTEND:VCALENDAR''"
  by code_simp

lemma page_tasks_upcoming_essay:
  "page_tasks_upcoming now_0308 [essay] = [(''Essay'', dt_0310_0900, dt_0310_0700)]"
  by (simp add: page_tasks_upcoming_def upcoming_loop_append upcoming_entry_essay)

lemma event_in_export:
  assumes "t \<in> set tasks" and "parsed_due t = Some d"
  shows "sublist (concat (vevent_lines t d)) (tasks_to_ics tasks)"
proof -
  have "event_block t = Some (vevent_lines t d)"
    using assms(2) by (simp add: event_block_def)
  with assms(1) have "vevent_lines t d \<in> set (List.map_filter event_block tasks)"
    by (rule map_filter_mem)
  then obtain us vs where s: "List.map_filter event_block tasks = us @ vevent_lines t d # vs"
    by (auto dest: split_list)
  have "tasks_to_ics tasks
        = (concat ics_header @ concat (concat us)) @ concat (vevent_lines t d)
          @ (concat (concat vs) @ ''END:VCALENDAR'')"
    by (simp add: tasks_to_ics_def encode_def ics_lines_eq s)
  then show ?thesis
    unfolding sublist_def by blast
qed

lemma parsed_due_iff:
  "parsed_due t = Some d
   \<longleftrightarrow> (\<exists>due. due_date t = Some due \<and> due \<noteq> [] \<and> fromisoformat due = Inr d)"
  by (auto simp: parsed_due_def split: option.splits sum.splits if_splits)


text \<open>
  C1. The export of the row \<open>essay\<close>, which \<^verbatim>\<open>page_tasks\<close> exports on 8 March 2025 when its
  reminder is upcoming, is one unbroken run of characters: the lines that the loop has
  built are joined with nothing between them, and the bytes hold no line break. Where
  one line ends and the next begins cannot be read from the bytes: the single row
  \<open>injected\<close> and the two rows \<open>plain_x\<close>, \<open>plain_y\<close> export to the same bytes, and their
  sets of \<^verbatim>\<open>(UID, DTSTART, SUMMARY)\<close> triples differ, so no reader of the bytes recovers the
  triples of both.
\<close>

theorem export_joined_without_breaks:
  "page_tasks_export now_0308 True [essay] = Some (tasks_to_ics [essay])
   \<and> tasks_to_ics [essay] =
     ''BEGIN:VCALENDARVERSION:2.0PRODID:-//StudentAssistance//ENBEGIN:VEVENTUID:task-1@student-assistDTSTAMP:20250310T090000ZDTSTART:20250310T090000ZSUMMARY:EssayEND:VEVENTEND:VCALENDAR''
   \<and> CHR 0x0A \<notin> set (tasks_to_ics [essay]) \<and> CHR 0x0D \<notin> set (tasks_to_ics [essay])
   \<and> tasks_to_ics [injected] = tasks_to_ics [plain_x, plain_y]
   \<and> set (task_triples [injected]) \<noteq> set (task_triples [plain_x, plain_y])"
proof (intro conjI)
  show "page_tasks_export now_0308 True [essay] = Some (tasks_to_ics [essay])"
    by (simp add: page_tasks_export_def page_tasks_upcoming_essay)
  show "tasks_to_ics [essay] =
     ''BEGIN:VCALENDARVERSION:2.0PRODID:-//StudentAssistance//ENBEGIN:VEVENTUID:task-1@student-assistDTSTAMP:20250310T090000ZDTSTART:20250310T090000ZSUMMARY:EssayEND:VEVENTEND:VCALENDAR''"
    by (rule tasks_to_ics_essay)
  show "CHR 0x0A \<notin> set (tasks_to_ics [essay])"
    unfolding tasks_to_ics_essay by simp
  show "CHR 0x0D \<notin> set (tasks_to_ics [essay])"
    unfolding tasks_to_ics_essay by simp
  show "tasks_to_ics [injected] = tasks_to_ics [plain_x, plain_y]"
    by (simp only: tasks_to_ics_injected tasks_to_ics_plain)
  show "set (task_triples [injected]) \<noteq> set (task_triples [plain_x, plain_y])"
    unfolding task_triples_injected task_triples_plain by simp
qed

subsection \<open>When the page exports\<close>




subsection \<open>The \<^verbatim>\<open>done\<close> flag\<close>

lemma remind_time_quiz: "remind_time_of dt_0312 (remind_before quiz_done) = Inr dt_0311"
  by code_simp

lemma is_upcoming_quiz: "is_upcoming horizon_7_days dt_0311 now_0308 = Inr True"
  by code_simp

lemma vevent_bytes_quiz:
  "concat (vevent_lines quiz_done dt_0312) =
     ''BEGIN:VEVENTUID:task-4@student-assistDTSTAMP:20250312T000000ZDTSTART:20250312T000000ZSUMMARY:QuizEND:VEVENT''"
  by code_simp

text \<open>
  C10. Neither the reminder loop nor the calendar export reads the \<^verbatim>\<open>done\<close> column:
  changing the flags of the rows in any way changes neither result. Whatever its flag, a
  task whose due date parses and whose reminder time passes the upcoming test has its
  entry in the reminders, and a task whose due date parses has the text of its
  \<^verbatim>\<open>VEVENT\<close> block in the bytes that \<^verbatim>\<open>tasks_to_ics\<close> returns.
\<close>

theorem done_flag_not_consulted:
  "page_tasks_upcoming now (map (\<lambda>t. t\<lparr>done_flag := f t\<rparr>) tasks)
     = page_tasks_upcoming now tasks
   \<and> tasks_to_ics (map (\<lambda>t. t\<lparr>done_flag := f t\<rparr>) tasks) = tasks_to_ics tasks
   \<and> (\<forall>t due dt_obj remind_time.
         t \<in> set tasks \<and> due_date t = Some due \<and> due \<noteq> []
         \<and> fromisoformat due = Inr dt_obj
         \<and> remind_time_of dt_obj (remind_before t) = Inr remind_time
         \<and> is_upcoming horizon_7_days remind_time now = Inr True
        \<longrightarrow> (task t, dt_obj, remind_time) \<in> set (page_tasks_upcoming now tasks))
   \<and> (\<forall>t due dt_obj.
         t \<in> set tasks \<and> due_date t = Some due \<and> due \<noteq> []
         \<and> fromisoformat due = Inr dt_obj
        \<longrightarrow> sublist (concat (vevent_lines t dt_obj)) (tasks_to_ics tasks))"
proof (intro conjI)
  show "page_tasks_upcoming now (map (\<lambda>t. t\<lparr>done_flag := f t\<rparr>) tasks)
     = page_tasks_upcoming now tasks"
    by (simp add: page_tasks_upcoming_def upcoming_loop_append map_filter_map comp_def
          upcoming_entry_done)
  show "tasks_to_ics (map (\<lambda>t. t\<lparr>done_flag := f t\<rparr>) tasks) = tasks_to_ics tasks"
    by (simp add: tasks_to_ics_def ics_lines_eq map_filter_map comp_def event_block_done)
  show "\<forall>t due dt_obj remind_time.
         t \<in> set tasks \<and> due_date t = Some due \<and> due \<noteq> []
         \<and> fromisoformat due = Inr dt_obj
         \<and> remind_time_of dt_obj (remind_before t) = Inr remind_time
         \<and> is_upcoming horizon_7_days remind_time now = Inr True
        \<longrightarrow> (task t, dt_obj, remind_time) \<in> set (page_tasks_upcoming now tasks)"
  proof (intro allI impI)
    fix t due dt_obj remind_time
    assume h: "t \<in> set tasks \<and> due_date t = Some due \<and> due \<noteq> []
         \<and> fromisoformat due = Inr dt_obj
         \<and> remind_time_of dt_obj (remind_before t) = Inr remind_time
         \<and> is_upcoming horizon_7_days remind_time now = Inr True"
    then have e: "upcoming_entry now t = Some (task t, dt_obj, remind_time)"
      by (simp add: upcoming_entry_def upcoming_try_def)
    have p: "page_tasks_upcoming now tasks = List.map_filter (upcoming_entry now) tasks"
      by (simp add: page_tasks_upcoming_def upcoming_loop_append)
    from h have "t \<in> set tasks"
      by simp
    then show "(task t, dt_obj, remind_time) \<in> set (page_tasks_upcoming now tasks)"
      unfolding p using e by (rule map_filter_mem)
  qed
  show "\<forall>t due dt_obj.
         t \<in> set tasks \<and> due_date t = Some due \<and> due \<noteq> []
         \<and> fromisoformat due = Inr dt_obj
        \<longrightarrow> sublist (concat (vevent_lines t dt_obj)) (tasks_to_ics tasks)"
  proof (intro allI impI)
    fix t due dt_obj
    assume h: "t \<in> set tasks \<and> due_date t = Some due \<and> due \<noteq> []
         \<and> fromisoformat due = Inr dt_obj"
    then have "parsed_due t = Some dt_obj"
      by (simp add: parsed_due_def)
    moreover from h have "t \<in> set tasks"
      by simp
    ultimately show "sublist (concat (vevent_lines t dt_obj)) (tasks_to_ics tasks)"
      by (intro event_in_export)
  qed
qed

theorem done_flag_not_consulted_witness:
  "page_tasks_upcoming now_0308 [quiz_done\<lparr>done_flag := 0\<rparr>, essay\<lparr>done_flag := 1\<rparr>]
     = page_tasks_upcoming now_0308 [quiz_done, essay]
   \<and> tasks_to_ics [quiz_done\<lparr>done_flag := 0\<rparr>, essay\<lparr>done_flag := 1\<rparr>]
     = tasks_to_ics [quiz_done, essay]
   \<and> done_flag quiz_done = 1
   \<and> due_date quiz_done = Some ''2025-03-12''
   \<and> fromisoformat ''2025-03-12'' = Inr dt_0312
   \<and> remind_time_of dt_0312 (remind_before quiz_done) = Inr dt_0311
   \<and> is_upcoming horizon_7_days dt_0311 now_0308 = Inr True
   \<and> (''Quiz'', dt_0312, dt_0311) \<in> set (page_tasks_upcoming now_0308 [quiz_done, essay])
   \<and> sublist ''BEGIN:VEVENTUID:task-4@student-assistDTSTAMP:20250312T000000ZDTSTART:20250312T000000ZSUMMARY:QuizEND:VEVENT''
        (tasks_to_ics [quiz_done, essay])"
proof -
  note th = done_flag_not_consulted [of now_0308 "\<lambda>t. 1 - done_flag t" "[quiz_done, essay]"]
  have m: "map (\<lambda>t. t\<lparr>done_flag := 1 - done_flag t\<rparr>) [quiz_done, essay]
           = [quiz_done\<lparr>done_flag := 0\<rparr>, essay\<lparr>done_flag := 1\<rparr>]"
    by (simp add: quiz_done_def essay_def)
  have a: "page_tasks_upcoming now_0308 [quiz_done\<lparr>done_flag := 0\<rparr>, essay\<lparr>done_flag := 1\<rparr>]
     = page_tasks_upcoming now_0308 [quiz_done, essay]"
    using th unfolding m by (rule conjunct1)
  have b: "tasks_to_ics [quiz_done\<lparr>done_flag := 0\<rparr>, essay\<lparr>done_flag := 1\<rparr>]
     = tasks_to_ics [quiz_done, essay]"
    using th unfolding m by (rule conjunct1 [OF conjunct2])
  have q: "quiz_done \<in> set [quiz_done, essay]"
    by simp
  have d: "done_flag quiz_done = 1"
    by (simp add: quiz_done_def)
  have du: "due_date quiz_done = Some ''2025-03-12''"
    by (simp add: quiz_done_def)
  have ne: "''2025-03-12'' \<noteq> []"
    by simp
  have tk: "task quiz_done = ''Quiz''"
    by (simp add: quiz_done_def)
  have "\<forall>t due dt_obj remind_time.
         t \<in> set [quiz_done, essay] \<and> due_date t = Some due \<and> due \<noteq> []
         \<and> fromisoformat due = Inr dt_obj
         \<and> remind_time_of dt_obj (remind_before t) = Inr remind_time
         \<and> is_upcoming horizon_7_days remind_time now_0308 = Inr True
        \<longrightarrow> (task t, dt_obj, remind_time) \<in> set (page_tasks_upcoming now_0308 [quiz_done, essay])"
    using th by (rule conjunct1 [OF conjunct2 [OF conjunct2]])
  then have "(task quiz_done, dt_0312, dt_0311)
               \<in> set (page_tasks_upcoming now_0308 [quiz_done, essay])"
    using q du ne fromisoformat_quiz remind_time_quiz is_upcoming_quiz by blast
  then have c: "(''Quiz'', dt_0312, dt_0311) \<in> set (page_tasks_upcoming now_0308 [quiz_done, essay])"
    by (simp only: tk)
  have "\<forall>t due dt_obj.
         t \<in> set [quiz_done, essay] \<and> due_date t = Some due \<and> due \<noteq> []
         \<and> fromisoformat due = Inr dt_obj
        \<longrightarrow> sublist (concat (vevent_lines t dt_obj)) (tasks_to_ics [quiz_done, essay])"
    using th by (rule conjunct2 [OF conjunct2 [OF conjunct2]])
  then have "sublist (concat (vevent_lines quiz_done dt_0312)) (tasks_to_ics [quiz_done, essay])"
    using q du ne fromisoformat_quiz by blast
  then have e: "sublist ''BEGIN:VEVENTUID:task-4@student-assistDTSTAMP:20250312T000000ZDTSTART:20250312T000000ZSUMMARY:QuizEND:VEVENT''
        (tasks_to_ics [quiz_done, essay])"
    by (simp only: vevent_bytes_quiz)
  show ?thesis
    by (intro conjI)
       (rule a, rule b, rule d, rule du, rule fromisoformat_quiz, rule remind_time_quiz,
        rule is_upcoming_quiz, rule c, rule e)
qed

subsection \<open>The order of the task listing\<close>

lemma order_le_total: "order_le a b \<or> order_le b a"
  unfolding order_le_def by (meson less_linear linear)

lemma order_le_trans:
  assumes "order_le a b" and "order_le b c"
  shows "order_le a c"
proof -
  consider "done_flag a < done_flag b" | "done_flag a = done_flag b"
    using assms(1) by (auto simp: order_le_def)
  then show ?thesis
  proof cases
    case 1
    moreover have "done_flag b \<le> done_flag c"
      using assms(2) by (auto simp: order_le_def)
    ultimately show ?thesis
      by (simp add: order_le_def)
  next
    case 2
    note ab = this
    consider "done_flag b < done_flag c" | "done_flag b = done_flag c"
      using assms(2) by (auto simp: order_le_def)
    then show ?thesis
    proof cases
      case 1
      with ab show ?thesis
        by (simp add: order_le_def)
    next
      case 2
      note bc = this
      from assms(1) ab have k1: "coalesce_due a < coalesce_due b
          \<or> (coalesce_due a = coalesce_due b \<and> updated_at b \<le> updated_at a)"
        by (simp add: order_le_def)
      from assms(2) bc have k2: "coalesce_due b < coalesce_due c
          \<or> (coalesce_due b = coalesce_due c \<and> updated_at c \<le> updated_at b)"
        by (simp add: order_le_def)
      from k1 k2 have "coalesce_due a < coalesce_due c
          \<or> (coalesce_due a = coalesce_due c \<and> updated_at c \<le> updated_at a)"
        by (metis less_trans order_trans)
      with ab bc show ?thesis
        by (simp add: order_le_def)
    qed
  qed
qed

lemma set_insert_row: "set (insert_row x ys) = insert x (set ys)"
  by (induction ys) auto

lemma mset_insert_row: "mset (insert_row x ys) = add_mset x (mset ys)"
  by (induction ys) simp_all

lemma sorted_insert_row:
  "sorted_wrt order_le ys \<Longrightarrow> sorted_wrt order_le (insert_row x ys)"
proof (induction ys)
  case Nil
  show ?case by simp
next
  case (Cons y ys)
  show ?case
  proof (cases "order_le x y")
    case True
    have "\<forall>z\<in>set ys. order_le x z"
      using Cons.prems True order_le_trans by auto
    with True Cons.prems show ?thesis
      by simp
  next
    case False
    then have yx: "order_le y x"
      using order_le_total by blast
    have "sorted_wrt order_le (insert_row x ys)"
      using Cons.IH Cons.prems by simp
    moreover have "\<forall>z\<in>set (insert_row x ys). order_le y z"
      using Cons.prems yx by (simp add: set_insert_row)
    ultimately show ?thesis
      using False by simp
  qed
qed

lemma sorted_order_by: "sorted_wrt order_le (order_by rows)"
  unfolding order_by_def by (induction rows) (simp_all add: sorted_insert_row)

lemma mset_order_by: "mset (order_by rows) = mset rows"
  unfolding order_by_def by (induction rows) (simp_all add: mset_insert_row)

lemma list_tasks_example:
  "list_tasks 1 example_table = [untimed, no_due, essay, quiz_done]"
  by code_simp

lemma rows_of_user_example:
  "rows_of_user 1 example_table = [essay, no_due, quiz_done, untimed]"
  by code_simp

lemma spec_order_example: "\<not> spec_order_le no_due essay"
  by code_simp

text \<open>
  C8 (as stated). In the listing of user 1 of the example table, the two rows without a
  due date come before the row \<open>essay\<close>, which has one and the same \<^verbatim>\<open>done\<close> flag: the
  listing is not in the order with an absent due date last.
\<close>

theorem list_tasks_not_absent_last:
  "list_tasks 1 example_table = [untimed, no_due, essay, quiz_done]
   \<and> \<not> sorted_wrt spec_order_le (list_tasks 1 example_table)"
proof
  show l: "list_tasks 1 example_table = [untimed, no_due, essay, quiz_done]"
    by (rule list_tasks_example)
  show "\<not> sorted_wrt spec_order_le (list_tasks 1 example_table)"
    unfolding l using spec_order_example by simp
qed

text \<open>
  C8 (amended). For every user and table, \<^verbatim>\<open>list_tasks\<close> returns the rows of that user,
  each as often as the table has it, ordered by \<^verbatim>\<open>done\<close> ascending, then by
  \<^verbatim>\<open>COALESCE(due_date, '')\<close> ascending as text, then by \<^verbatim>\<open>updated_at\<close> descending. An absent
  due date counts as the empty text and so comes first: a row that stands before a row
  without a due date and has the same \<^verbatim>\<open>done\<close> flag has no due date or an empty one.
\<close>

theorem list_tasks_order:
  "sorted_wrt order_le (list_tasks user_id table)
   \<and> mset (list_tasks user_id table) = mset (rows_of_user user_id table)
   \<and> (\<forall>i j. i < j \<and> j < length (list_tasks user_id table)
         \<and> done_flag (list_tasks user_id table ! i) = done_flag (list_tasks user_id table ! j)
         \<and> due_date (list_tasks user_id table ! j) = None
        \<longrightarrow> due_date (list_tasks user_id table ! i) = None
            \<or> due_date (list_tasks user_id table ! i) = Some [])"
proof (intro conjI allI impI)
  show s: "sorted_wrt order_le (list_tasks user_id table)"
    by (simp add: list_tasks_def sorted_order_by)
  show "mset (list_tasks user_id table) = mset (rows_of_user user_id table)"
    by (simp add: list_tasks_def mset_order_by)
  fix i j
  assume h: "i < j \<and> j < length (list_tasks user_id table)
         \<and> done_flag (list_tasks user_id table ! i) = done_flag (list_tasks user_id table ! j)
         \<and> due_date (list_tasks user_id table ! j) = None"
  then have "order_le (list_tasks user_id table ! i) (list_tasks user_id table ! j)"
    using s by (simp add: sorted_wrt_iff_nth_less)
  with h have "coalesce_due (list_tasks user_id table ! i) = []"
    by (simp add: order_le_def coalesce_due_def)
  then show "due_date (list_tasks user_id table ! i) = None
            \<or> due_date (list_tasks user_id table ! i) = Some []"
    by (simp add: coalesce_due_def split: option.splits)
qed

theorem list_tasks_order_witness:
  "list_tasks 1 example_table = [untimed, no_due, essay, quiz_done]
   \<and> sorted_wrt order_le [untimed, no_due, essay, quiz_done]
   \<and> mset [untimed, no_due, essay, quiz_done] = mset [essay, no_due, quiz_done, untimed]
   \<and> done_flag untimed = done_flag no_due \<and> due_date no_due = None
   \<and> (due_date untimed = None \<or> due_date untimed = Some [])"
proof -
  note th = list_tasks_order [of 1 example_table]
  note l = list_tasks_example
  have a: "sorted_wrt order_le [untimed, no_due, essay, quiz_done]"
    using th unfolding l by (rule conjunct1)
  have b: "mset [untimed, no_due, essay, quiz_done] = mset [essay, no_due, quiz_done, untimed]"
    using th unfolding l rows_of_user_example by (rule conjunct1 [OF conjunct2])
  have d: "done_flag untimed = done_flag no_due"
    by (simp add: untimed_def no_due_def)
  have n: "due_date no_due = None"
    by (simp add: no_due_def)
  have "\<forall>i j. i < j \<and> j < length [untimed, no_due, essay, quiz_done]
         \<and> done_flag ([untimed, no_due, essay, quiz_done] ! i)
             = done_flag ([untimed, no_due, essay, quiz_done] ! j)
         \<and> due_date ([untimed, no_due, essay, quiz_done] ! j) = None
        \<longrightarrow> due_date ([untimed, no_due, essay, quiz_done] ! i) = None
            \<or> due_date ([untimed, no_due, essay, quiz_done] ! i) = Some []"
    using th unfolding l by (rule conjunct2 [OF conjunct2])
  then have "(0::nat) < 1 \<and> 1 < length [untimed, no_due, essay, quiz_done]
         \<and> done_flag ([untimed, no_due, essay, quiz_done] ! 0)
             = done_flag ([untimed, no_due, essay, quiz_done] ! 1)
         \<and> due_date ([untimed, no_due, essay, quiz_done] ! 1) = None
        \<longrightarrow> due_date ([untimed, no_due, essay, quiz_done] ! 0) = None
            \<or> due_date ([untimed, no_due, essay, quiz_done] ! 0) = Some []"
    by blast
  with d n have c: "due_date untimed = None \<or> due_date untimed = Some []"
    by simp
  show ?thesis
    by (intro conjI) (rule l, rule a, rule b, rule d, rule n, rule c)
qed

subsection \<open>Calendar arithmetic\<close>

lemma div_succ:
  fixes y k :: int
  assumes "0 < k"
  shows "(y + 1) div k = y div k + (if (y + 1) mod k = 0 then 1 else 0)"
proof -
  define q r where "q = y div k" and "r = y mod k"
  have y: "y = k * q + r"
    by (simp add: q_def r_def)
  have rb: "0 \<le> r" "r < k"
    using assms by (simp_all add: r_def)
  show ?thesis
  proof (cases "r + 1 = k")
    case True
    then have "r = k - 1"
      by simp
    then have e: "y + 1 = k * (q + 1) + 0"
      by (simp add: y algebra_simps)
    have "(y + 1) div k = q + 1"
      using e _ assms by (rule int_div_pos_eq) simp
    moreover have "(y + 1) mod k = 0"
      using e _ assms by (rule int_mod_pos_eq) simp
    ultimately show ?thesis
      by (simp add: q_def)
  next
    case False
    have e: "y + 1 = k * q + (r + 1)"
      by (simp add: y)
    have lt: "r + 1 < k"
      using rb False by simp
    have ge: "0 \<le> r + 1"
      using rb by simp
    have "(y + 1) div k = q"
      using e ge lt by (rule int_div_pos_eq)
    moreover have "(y + 1) mod k = r + 1"
      using e ge lt by (rule int_mod_pos_eq)
    ultimately show ?thesis
      using rb by (simp add: q_def)
  qed
qed

lemma dby_succ:
  "days_before_year (y + 1) = days_before_year y + (if is_leap y then 366 else 365)"
proof -
  define l4 l100 l400 where "l4 \<longleftrightarrow> y mod 4 = 0" and "l100 \<longleftrightarrow> y mod 100 = 0"
    and "l400 \<longleftrightarrow> y mod 400 = 0"
  define p4 p100 p400 where "p4 = (y - 1) div 4" and "p100 = (y - 1) div 100"
    and "p400 = (y - 1) div 400"
  have a: "y div 4 = p4 + (if l4 then 1 else 0)"
    using div_succ [of 4 "y - 1"] by (simp add: l4_def p4_def)
  have b: "y div 100 = p100 + (if l100 then 1 else 0)"
    using div_succ [of 100 "y - 1"] by (simp add: l100_def p100_def)
  have c: "y div 400 = p400 + (if l400 then 1 else 0)"
    using div_succ [of 400 "y - 1"] by (simp add: l400_def p400_def)
  have d: "l400 \<Longrightarrow> l100"
    using mod_mod_cancel [of 100 400 y] by (simp add: l400_def l100_def)
  have e: "l100 \<Longrightarrow> l4"
    using mod_mod_cancel [of 4 100 y] by (simp add: l4_def l100_def)
  have dby1: "days_before_year (y + 1) = y * 365 + y div 4 - y div 100 + y div 400"
    by (simp add: days_before_year_def)
  have dby0: "days_before_year y = (y - 1) * 365 + p4 - p100 + p400"
    by (simp add: days_before_year_def Let_def p4_def p100_def p400_def)
  have leap: "is_leap y = (l4 \<and> (\<not> l100 \<or> l400))"
    by (simp add: is_leap_def l4_def l100_def l400_def)
  show ?thesis
    unfolding dby1 dby0 leap a b c using d e
    by (cases l4; cases l100; cases l400; simp add: algebra_simps)
qed

lemma dby_mono: "y \<le> y' \<Longrightarrow> days_before_year y \<le> days_before_year y'"
proof (induction y' rule: int_ge_induct)
  case base
  show ?case by simp
next
  case (step i)
  have "days_before_year i \<le> days_before_year (i + 1)"
    by (simp add: dby_succ)
  with step.IH show ?case
    by (rule order_trans)
qed

lemma dby_less:
  assumes "y < y'"
  shows "days_before_year y + (if is_leap y then 366 else 365) \<le> days_before_year y'"
proof -
  have "days_before_year (y + 1) \<le> days_before_year y'"
    using assms by (intro dby_mono) simp
  then show ?thesis
    by (simp only: dby_succ)
qed

lemma month_cases:
  fixes m :: int
  assumes "1 \<le> m" and "m \<le> 12"
  obtains "m = 1" | "m = 2" | "m = 3" | "m = 4" | "m = 5" | "m = 6"
    | "m = 7" | "m = 8" | "m = 9" | "m = 10" | "m = 11" | "m = 12"
proof -
  from assms have "m = 1 \<or> m = 2 \<or> m = 3 \<or> m = 4 \<or> m = 5 \<or> m = 6
      \<or> m = 7 \<or> m = 8 \<or> m = 9 \<or> m = 10 \<or> m = 11 \<or> m = 12"
    by arith
  then show thesis
    using that by blast
qed

lemma dbm_next:
  assumes "1 \<le> m" and "m < 12"
  shows "days_before_month y (m + 1) = days_before_month y m + days_in_month y m"
proof -
  from assms have "1 \<le> m" and "m \<le> 12"
    by simp_all
  then show ?thesis
    using assms(2)
    by (cases m rule: month_cases)
       (simp_all add: days_before_month_def days_in_month_def DAYS_BEFORE_MONTH_def
          DAYS_IN_MONTH_def)
qed

lemma dim_pos:
  assumes "1 \<le> m" and "m \<le> 12"
  shows "28 \<le> days_in_month y m"
  using assms
  by (cases m rule: month_cases) (simp_all add: days_in_month_def DAYS_IN_MONTH_def)

lemma dbm_mono:
  assumes "1 \<le> m" and "m \<le> m'" and "m' \<le> 12"
  shows "days_before_month y m \<le> days_before_month y m'"
  using assms(2,3)
proof (induction m' rule: int_ge_induct)
  case base
  show ?case by simp
next
  case (step i)
  have i: "1 \<le> i" "i < 12" "i \<le> 12"
    using assms(1) step.hyps step.prems by simp_all
  have "days_before_month y (i + 1) = days_before_month y i + days_in_month y i"
    using i(1,2) by (rule dbm_next)
  moreover have "28 \<le> days_in_month y i"
    using i(1,3) by (rule dim_pos)
  moreover have "days_before_month y m \<le> days_before_month y i"
    using i(3) by (rule step.IH)
  ultimately show ?case
    by simp
qed

lemma dbm_less:
  assumes "1 \<le> m" and "m < m'" and "m' \<le> 12"
  shows "days_before_month y m + days_in_month y m \<le> days_before_month y m'"
proof -
  have "days_before_month y (m + 1) \<le> days_before_month y m'"
    using assms by (intro dbm_mono) simp_all
  moreover have "days_before_month y (m + 1) = days_before_month y m + days_in_month y m"
    using assms by (intro dbm_next) simp_all
  ultimately show ?thesis
    by simp
qed

lemma yday_bounds:
  assumes "1 \<le> m" and "m \<le> 12" and "1 \<le> d" and "d \<le> days_in_month y m"
  shows "1 \<le> days_before_month y m + d"
    and "days_before_month y m + d \<le> (if is_leap y then 366 else 365)"
proof -
  have "0 \<le> days_before_month y 1"
    by (simp add: days_before_month_def DAYS_BEFORE_MONTH_def)
  moreover have "days_before_month y 1 \<le> days_before_month y m"
    using assms(1,2) by (intro dbm_mono) simp_all
  ultimately show "1 \<le> days_before_month y m + d"
    using assms(3) by simp
  have e: "days_before_month y 12 + days_in_month y 12 = (if is_leap y then 366 else 365)"
    by (simp add: days_before_month_def DAYS_BEFORE_MONTH_def days_in_month_def
          DAYS_IN_MONTH_def)
  show "days_before_month y m + d \<le> (if is_leap y then 366 else 365)"
  proof (cases "m = 12")
    case True
    with assms(4) e show ?thesis
      by simp
  next
    case False
    then have "days_before_month y m + days_in_month y m \<le> days_before_month y 12"
      using assms(1,2) by (intro dbm_less) simp_all
    moreover have "28 \<le> days_in_month y 12"
      by (intro dim_pos) simp_all
    ultimately show ?thesis
      using assms(4) e by (simp split: if_splits)
  qed
qed

lemma ymd2ord_less:
  assumes v: "check_date_fields y m d" and v': "check_date_fields y' m' d'"
    and lt: "y < y' \<or> (y = y' \<and> (m < m' \<or> (m = m' \<and> d < d')))"
  shows "ymd2ord y m d < ymd2ord y' m' d'"
proof -
  from v have m: "1 \<le> m" "m \<le> 12" "1 \<le> d" "d \<le> days_in_month y m"
    by (simp_all add: check_date_fields_def)
  from v' have m': "1 \<le> m'" "m' \<le> 12" "1 \<le> d'" "d' \<le> days_in_month y' m'"
    by (simp_all add: check_date_fields_def)
  consider "y < y'" | "y = y'" "m < m'" | "y = y'" "m = m'" "d < d'"
    using lt by blast
  then show ?thesis
  proof cases
    case 1
    have "days_before_month y m + d \<le> (if is_leap y then 366 else 365)"
      using m by (rule yday_bounds)
    moreover have "days_before_year y + (if is_leap y then 366 else 365) \<le> days_before_year y'"
      using 1 by (rule dby_less)
    moreover have "1 \<le> days_before_month y' m' + d'"
      using m' by (rule yday_bounds)
    ultimately show ?thesis
      by (simp add: ymd2ord_def)
  next
    case 2
    have "days_before_month y m + days_in_month y m \<le> days_before_month y m'"
      using m(1) 2(2) m'(2) by (rule dbm_less)
    with m(4) m'(3) 2(1) show ?thesis
      by (simp add: ymd2ord_def)
  next
    case 3
    then show ?thesis
      by (simp add: ymd2ord_def)
  qed
qed

lemma ymd2ord_lex:
  assumes v: "check_date_fields y m d" and v': "check_date_fields y' m' d'"
  shows "ymd2ord y m d < ymd2ord y' m' d'
         \<longleftrightarrow> (y < y' \<or> (y = y' \<and> (m < m' \<or> (m = m' \<and> d < d'))))"
proof
  assume "y < y' \<or> (y = y' \<and> (m < m' \<or> (m = m' \<and> d < d')))"
  with v v' show "ymd2ord y m d < ymd2ord y' m' d'"
    by (rule ymd2ord_less)
next
  assume lt: "ymd2ord y m d < ymd2ord y' m' d'"
  show "y < y' \<or> (y = y' \<and> (m < m' \<or> (m = m' \<and> d < d')))"
  proof (rule ccontr)
    assume n: "\<not> (y < y' \<or> (y = y' \<and> (m < m' \<or> (m = m' \<and> d < d'))))"
    then consider "y = y' \<and> m = m' \<and> d = d'"
      | "y' < y \<or> (y' = y \<and> (m' < m \<or> (m' = m \<and> d' < d)))"
      by linarith
    then show False
    proof cases
      case 1
      with lt show False by simp
    next
      case 2
      with v' v have "ymd2ord y' m' d' < ymd2ord y m d"
        by (rule ymd2ord_less)
      with lt show False by simp
    qed
  qed
qed

lemma ymd2ord_inj:
  assumes v: "check_date_fields y m d" and v': "check_date_fields y' m' d'"
  shows "ymd2ord y m d = ymd2ord y' m' d' \<longleftrightarrow> (y = y' \<and> m = m' \<and> d = d')"
proof
  assume "y = y' \<and> m = m' \<and> d = d'"
  then show "ymd2ord y m d = ymd2ord y' m' d'" by simp
next
  assume e: "ymd2ord y m d = ymd2ord y' m' d'"
  show "y = y' \<and> m = m' \<and> d = d'"
  proof (rule ccontr)
    assume "\<not> (y = y' \<and> m = m' \<and> d = d')"
    then consider "y < y' \<or> (y = y' \<and> (m < m' \<or> (m = m' \<and> d < d')))"
      | "y' < y \<or> (y' = y \<and> (m' < m \<or> (m' = m \<and> d' < d)))"
      by linarith
    then show False
    proof cases
      case 1
      with v v' have "ymd2ord y m d < ymd2ord y' m' d'"
        by (rule ymd2ord_less)
      with e show False by simp
    next
      case 2
      with v' v have "ymd2ord y' m' d' < ymd2ord y m d"
        by (rule ymd2ord_less)
      with e show False by simp
    qed
  qed
qed

lemma ymd2ord_bounds:
  assumes v: "check_date_fields y m d"
  shows "1 \<le> ymd2ord y m d" and "ymd2ord y m d \<le> MAXORDINAL"
proof -
  from v have m: "1 \<le> m" "m \<le> 12" "1 \<le> d" "d \<le> days_in_month y m"
    and y: "1 \<le> y" "y \<le> 9999"
    by (simp_all add: check_date_fields_def MINYEAR_def MAXYEAR_def)
  have "days_before_year 1 \<le> days_before_year y"
    using y(1) by (rule dby_mono)
  moreover have "days_before_year 1 = 0"
    by (simp add: days_before_year_def)
  moreover have "1 \<le> days_before_month y m + d"
    using m by (rule yday_bounds)
  ultimately show "1 \<le> ymd2ord y m d"
    by (simp add: ymd2ord_def)
  have "y < 10000"
    using y(2) by simp
  then have "days_before_year y + (if is_leap y then 366 else 365) \<le> days_before_year 10000"
    by (rule dby_less)
  moreover have "days_before_year 10000 = 3652059"
    by (simp add: days_before_year_def)
  moreover have "days_before_month y m + d \<le> (if is_leap y then 366 else 365)"
    using m by (rule yday_bounds)
  ultimately show "ymd2ord y m d \<le> MAXORDINAL"
    by (simp add: ymd2ord_def MAXORDINAL_def)
qed

subsection \<open>Durations and points of time\<close>

lemma new_timedelta_us:
  assumes "new_timedelta d s us = Inr t"
  shows "timedelta_us t = (d * 86400 + s) * 1000000 + us" and "normalised t"
proof -
  define q1 r1 where "q1 = us div 1000000" and "r1 = us mod 1000000"
  define q2 r2 where "q2 = (s + q1) div 86400" and "r2 = (s + q1) mod 86400"
  have us: "us = q1 * 1000000 + r1"
    by (simp add: q1_def r1_def)
  have s: "s + q1 = q2 * 86400 + r2"
    by (simp add: q2_def r2_def)
  have b: "0 \<le> r1" "r1 < 1000000" "0 \<le> r2" "r2 < 86400"
    by (simp_all add: r1_def r2_def)
  from assms have t: "t = \<lparr>days = d + q2, seconds = r2, microseconds = r1\<rparr>"
    by (simp add: new_timedelta_def Let_def q1_def r1_def q2_def r2_def split: if_splits)
  have "timedelta_us t = ((d + q2) * 86400 + r2) * 1000000 + r1"
    by (simp add: t timedelta_us_def)
  also have "\<dots> = (d * 86400 + (q2 * 86400 + r2)) * 1000000 + r1"
    by (simp add: algebra_simps)
  also have "\<dots> = (d * 86400 + (s + q1)) * 1000000 + r1"
    by (simp only: s)
  also have "\<dots> = (d * 86400 + s) * 1000000 + (q1 * 1000000 + r1)"
    by (simp add: algebra_simps)
  also have "\<dots> = (d * 86400 + s) * 1000000 + us"
    by (simp only: us)
  finally show "timedelta_us t = (d * 86400 + s) * 1000000 + us" .
  show "normalised t"
    using b by (simp add: t normalised_def)
qed

lemma new_timedelta_ok:
  assumes "\<bar>d\<bar> \<le> 800000000" and "\<bar>s\<bar> \<le> 8640000000000" and "\<bar>us\<bar> \<le> 1000000"
  shows "\<exists>t. new_timedelta d s us = Inr t"
proof -
  define q1 where "q1 = us div 1000000"
  define q2 where "q2 = (s + q1) div 86400"
  have "- 1 \<le> q1 \<and> q1 \<le> 1"
    unfolding q1_def using assms(3) by arith
  then have "- 100000001 \<le> q2 \<and> q2 \<le> 100000001"
    unfolding q2_def using assms(2) by arith
  then have "\<bar>d + q2\<bar> \<le> 999999999"
    using assms(1) by arith
  then show ?thesis
    by (simp add: new_timedelta_def Let_def q1_def q2_def)
qed

lemma radix_less:
  fixes q r q' r' :: int
  assumes "0 \<le> r" "r < 1000000" "0 \<le> r'" "r' < 1000000"
  shows "q * 1000000 + r < q' * 1000000 + r' \<longleftrightarrow> q < q' \<or> (q = q' \<and> r < r')"
  using assms by arith

lemma radix_less_day:
  fixes q r q' r' :: int
  assumes "0 \<le> r" "r < 86400" "0 \<le> r'" "r' < 86400"
  shows "q * 86400 + r < q' * 86400 + r' \<longleftrightarrow> q < q' \<or> (q = q' \<and> r < r')"
  using assms by arith

lemma radix_eq_day:
  fixes q r q' r' :: int
  assumes "0 \<le> r" "r < 86400" "0 \<le> r'" "r' < 86400"
  shows "q * 86400 + r = q' * 86400 + r' \<longleftrightarrow> q = q' \<and> r = r'"
proof
  assume e: "q * 86400 + r = q' * 86400 + r'"
  have 1: "q * 86400 + r < q' * 86400 + r' \<longleftrightarrow> q < q' \<or> (q = q' \<and> r < r')"
    using assms by (rule radix_less_day)
  have 2: "q' * 86400 + r' < q * 86400 + r \<longleftrightarrow> q' < q \<or> (q' = q \<and> r' < r)"
    using assms(3,4,1,2) by (rule radix_less_day)
  from e 1 have "\<not> (q < q' \<or> (q = q' \<and> r < r'))"
    by simp
  moreover from e 2 have "\<not> (q' < q \<or> (q' = q \<and> r' < r))"
    by simp
  ultimately show "q = q' \<and> r = r'"
    by auto
next
  assume "q = q' \<and> r = r'"
  then show "q * 86400 + r = q' * 86400 + r'"
    by simp
qed

lemma timedelta_lt_us:
  assumes "normalised a" and "normalised b"
  shows "timedelta_lt a b \<longleftrightarrow> timedelta_us a < timedelta_us b"
proof -
  from assms have b: "0 \<le> seconds a" "seconds a < 86400" "0 \<le> microseconds a"
      "microseconds a < 1000000" "0 \<le> seconds b" "seconds b < 86400"
      "0 \<le> microseconds b" "microseconds b < 1000000"
    by (simp_all add: normalised_def)
  have "timedelta_us a < timedelta_us b
        \<longleftrightarrow> days a * 86400 + seconds a < days b * 86400 + seconds b
            \<or> (days a * 86400 + seconds a = days b * 86400 + seconds b
                \<and> microseconds a < microseconds b)"
    unfolding timedelta_us_def using b(3,4,7,8) by (rule radix_less)
  also have "days a * 86400 + seconds a < days b * 86400 + seconds b
        \<longleftrightarrow> days a < days b \<or> (days a = days b \<and> seconds a < seconds b)"
    using b(1,2,5,6) by (rule radix_less_day)
  also have "days a * 86400 + seconds a = days b * 86400 + seconds b
        \<longleftrightarrow> days a = days b \<and> seconds a = seconds b"
    using b(1,2,5,6) by (rule radix_eq_day)
  finally show ?thesis
    unfolding timedelta_lt_def by blast
qed
lemma valid_datetime_bounds:
  assumes "valid_datetime t"
  shows "0 \<le> hour t" "hour t \<le> 23" "0 \<le> minute t" "minute t \<le> 59"
    "0 \<le> second t" "second t \<le> 59" "0 \<le> microsecond t" "microsecond t \<le> 999999"
    "1 \<le> toordinal t" "toordinal t \<le> 3652059"
proof -
  from assms have d: "check_date_fields (year t) (month t) (day t)"
    and c: "check_time_fields (hour t) (minute t) (second t) (microsecond t)"
    by (simp_all add: valid_datetime_def)
  from c show "0 \<le> hour t" "hour t \<le> 23" "0 \<le> minute t" "minute t \<le> 59"
    "0 \<le> second t" "second t \<le> 59" "0 \<le> microsecond t" "microsecond t \<le> 999999"
    by (simp_all add: check_time_fields_def)
  from d show "1 \<le> toordinal t"
    unfolding toordinal_def by (rule ymd2ord_bounds)
  from d have "toordinal t \<le> MAXORDINAL"
    unfolding toordinal_def by (rule ymd2ord_bounds)
  then show "toordinal t \<le> 3652059"
    by (simp add: MAXORDINAL_def)
qed

lemma instant_mono:
  assumes a: "valid_datetime a" and b: "valid_datetime b"
    and lt: "datetime_fields b < datetime_fields a"
  shows "instant_us b < instant_us a"
proof -
  note ba = valid_datetime_bounds [OF a]
  note bb = valid_datetime_bounds [OF b]
  define oa ob where "oa = toordinal a" and "ob = toordinal b"
  have ia: "instant_us a = oa * 86400000000 + hour a * 3600000000 + minute a * 60000000
      + second a * 1000000 + microsecond a"
    by (simp add: instant_us_def oa_def algebra_simps)
  have ib: "instant_us b = ob * 86400000000 + hour b * 3600000000 + minute b * 60000000
      + second b * 1000000 + microsecond b"
    by (simp add: instant_us_def ob_def algebra_simps)
  from a have da: "check_date_fields (year a) (month a) (day a)"
    by (simp add: valid_datetime_def)
  from b have db: "check_date_fields (year b) (month b) (day b)"
    by (simp add: valid_datetime_def)
  from lt consider
      "year b < year a \<or> (year b = year a \<and> (month b < month a
          \<or> (month b = month a \<and> day b < day a)))"
    | "ob = oa" "hour b < hour a"
    | "ob = oa" "hour b = hour a" "minute b < minute a"
    | "ob = oa" "hour b = hour a" "minute b = minute a" "second b < second a"
    | "ob = oa" "hour b = hour a" "minute b = minute a" "second b = second a"
      "microsecond b < microsecond a"
    by (auto simp: datetime_fields_def oa_def ob_def toordinal_def)
  then show ?thesis
  proof cases
    case 1
    with db da have "ymd2ord (year b) (month b) (day b) < ymd2ord (year a) (month a) (day a)"
      by (rule ymd2ord_less)
    then have "ob + 1 \<le> oa"
      by (simp add: oa_def ob_def toordinal_def)
    with ba(1-8) bb(1-8) show ?thesis
      unfolding ia ib by linarith
  next
    case 2
    with ba(1-8) bb(1-8) show ?thesis
      unfolding ia ib by linarith
  next
    case 3
    with ba(1-8) bb(1-8) show ?thesis
      unfolding ia ib by linarith
  next
    case 4
    with ba(1-8) bb(1-8) show ?thesis
      unfolding ia ib by linarith
  next
    case 5
    with ba(1-8) bb(1-8) show ?thesis
      unfolding ia ib by linarith
  qed
qed

lemma fields_lex:
  assumes a: "valid_datetime a" and b: "valid_datetime b"
  shows "datetime_fields b < datetime_fields a \<longleftrightarrow> instant_us b < instant_us a"
proof
  assume "datetime_fields b < datetime_fields a"
  with a b show "instant_us b < instant_us a"
    by (rule instant_mono)
next
  assume lt: "instant_us b < instant_us a"
  show "datetime_fields b < datetime_fields a"
  proof (rule ccontr)
    assume "\<not> datetime_fields b < datetime_fields a"
    then consider "datetime_fields a = datetime_fields b"
      | "datetime_fields a < datetime_fields b"
      by (auto simp: not_less le_less)
    then show False
    proof cases
      case 1
      then have "instant_us a = instant_us b"
        by (simp add: datetime_fields_def instant_us_def toordinal_def)
      with lt show False by simp
    next
      case 2
      with b a have "instant_us a < instant_us b"
        by (rule instant_mono)
      with lt show False by simp
    qed
  qed
qed

lemma datetime_diff_us:
  assumes a: "valid_datetime a" and b: "valid_datetime b" and tz: "tzinfo a = tzinfo b"
  shows "\<exists>t. datetime_diff a b = Inr t \<and> timedelta_us t = instant_us a - instant_us b
             \<and> normalised t"
proof -
  note ba = valid_datetime_bounds [OF a]
  note bb = valid_datetime_bounds [OF b]
  define d where "d = toordinal a - toordinal b"
  define s where "s = (second a + minute a * 60 + hour a * 3600)
             - (second b + minute b * 60 + hour b * 3600)"
  define us where "us = microsecond a - microsecond b"
  have e: "datetime_diff a b = new_timedelta d s us"
    using tz by (simp add: datetime_diff_def Let_def d_def s_def us_def)
  have "\<bar>d\<bar> \<le> 800000000"
    unfolding d_def using ba(9,10) bb(9,10) by linarith
  moreover have "\<bar>s\<bar> \<le> 8640000000000"
    unfolding s_def using ba(1-6) bb(1-6) by linarith
  moreover have "\<bar>us\<bar> \<le> 1000000"
    unfolding us_def using ba(7,8) bb(7,8) by linarith
  ultimately obtain t where t: "new_timedelta d s us = Inr t"
    using new_timedelta_ok by blast
  have "timedelta_us t = (d * 86400 + s) * 1000000 + us"
    using t by (rule new_timedelta_us)
  also have "\<dots> = instant_us a - instant_us b"
    by (simp add: d_def s_def us_def instant_us_def algebra_simps)
  finally have "timedelta_us t = instant_us a - instant_us b" .
  moreover have "normalised t"
    using t by (rule new_timedelta_us)
  ultimately show ?thesis
    using e t by simp
qed

lemma instant_us_examples:
  "instant_us now_0308 = 63877107600000000"
  "instant_us dt_0310_0700 = 63877273200000000"
  "instant_us dt_0331 = 63879062400000000"
  "timedelta_us horizon_7_days = 604800000000"
  by code_simp+

lemma valid_examples:
  "valid_datetime now_0308" "valid_datetime dt_0310_0700" "valid_datetime dt_0331"
  "normalised horizon_7_days"
  by code_simp+

text \<open>
  C2. On two \<^verbatim>\<open>datetime\<close> values of the same kind (both naive, as \<^verbatim>\<open>utcnow()\<close> and the stored
  due dates are, or with the same offset) and any horizon, the test
  \<^verbatim>\<open>remind_time > now and (remind_time - now) < horizon\<close> returns, and its value is true
  exactly when the reminder time is after now and less than the horizon after it, as
  points of time. It is false when the reminder time is not after now, and false when it
  is the horizon or more after now.
\<close>

theorem is_upcoming_iff:
  assumes "valid_datetime r" and "valid_datetime now" and "tzinfo r = tzinfo now"
    and "normalised h"
  shows "is_upcoming h r now
           = Inr (instant_us now < instant_us r
                  \<and> instant_us r - instant_us now < timedelta_us h)
         \<and> (instant_us r \<le> instant_us now \<longrightarrow> is_upcoming h r now = Inr False)
         \<and> (instant_us now + timedelta_us h \<le> instant_us r
              \<longrightarrow> is_upcoming h r now = Inr False)"
proof -
  have gt: "datetime_gt r now = Inr (instant_us now < instant_us r)"
    using assms(3) fields_lex [OF assms(1) assms(2)] by (simp add: datetime_gt_def)
  obtain t where t: "datetime_diff r now = Inr t"
      "timedelta_us t = instant_us r - instant_us now" "normalised t"
    using datetime_diff_us [OF assms(1) assms(2) assms(3)] by blast
  have lt: "timedelta_lt t h \<longleftrightarrow> instant_us r - instant_us now < timedelta_us h"
    using timedelta_lt_us [OF t(3) assms(4)] t(2) by simp
  have main: "is_upcoming h r now
           = Inr (instant_us now < instant_us r
                  \<and> instant_us r - instant_us now < timedelta_us h)"
    by (simp add: is_upcoming_def gt t(1) lt)
  show ?thesis
  proof (intro conjI impI)
    show "is_upcoming h r now
           = Inr (instant_us now < instant_us r
                  \<and> instant_us r - instant_us now < timedelta_us h)"
      by (rule main)
  next
    assume "instant_us r \<le> instant_us now"
    then show "is_upcoming h r now = Inr False"
      by (simp add: main)
  next
    assume "instant_us now + timedelta_us h \<le> instant_us r"
    then have "\<not> instant_us r - instant_us now < timedelta_us h"
      by linarith
    then show "is_upcoming h r now = Inr False"
      by (simp add: main)
  qed
qed

theorem is_upcoming_iff_witness:
  "valid_datetime dt_0310_0700 \<and> valid_datetime now_0308 \<and> valid_datetime dt_0331
   \<and> tzinfo dt_0310_0700 = tzinfo now_0308 \<and> tzinfo dt_0331 = tzinfo now_0308
   \<and> normalised horizon_7_days
   \<and> is_upcoming horizon_7_days dt_0310_0700 now_0308 = Inr True
   \<and> instant_us now_0308 \<le> instant_us dt_0310_0700
   \<and> is_upcoming horizon_7_days now_0308 dt_0310_0700 = Inr False
   \<and> instant_us now_0308 + timedelta_us horizon_7_days \<le> instant_us dt_0331
   \<and> is_upcoming horizon_7_days dt_0331 now_0308 = Inr False"
proof -
  have tz1: "tzinfo dt_0310_0700 = tzinfo now_0308"
    by (simp add: dt_0310_0700_def now_0308_def)
  have tz2: "tzinfo dt_0331 = tzinfo now_0308"
    by (simp add: dt_0331_def now_0308_def)
  note th1 = is_upcoming_iff [OF valid_examples(2) valid_examples(1) tz1 valid_examples(4)]
  note th2 = is_upcoming_iff [OF valid_examples(1) valid_examples(2) tz1 [symmetric]
      valid_examples(4)]
  note th3 = is_upcoming_iff [OF valid_examples(3) valid_examples(1) tz2 valid_examples(4)]
  have a: "is_upcoming horizon_7_days dt_0310_0700 now_0308 = Inr True"
    using th1 [THEN conjunct1] by (simp add: instant_us_examples)
  have le: "instant_us now_0308 \<le> instant_us dt_0310_0700"
    by (simp add: instant_us_examples)
  have b: "is_upcoming horizon_7_days now_0308 dt_0310_0700 = Inr False"
    using th2 [THEN conjunct2, THEN conjunct1] le by (rule mp)
  have far: "instant_us now_0308 + timedelta_us horizon_7_days \<le> instant_us dt_0331"
    by (simp add: instant_us_examples)
  have c: "is_upcoming horizon_7_days dt_0331 now_0308 = Inr False"
    using th3 [THEN conjunct2, THEN conjunct2] far by (rule mp)
  show ?thesis
    by (intro conjI)
       (rule valid_examples(2), rule valid_examples(1), rule valid_examples(3), rule tz1,
        rule tz2, rule valid_examples(4), rule a, rule le, rule b, rule far, rule c)
qed

subsection \<open>From the ordinal back to the date\<close>

lemma dby_split:
  fixes a b c e :: int
  assumes "0 \<le> b" "b \<le> 3" "0 \<le> c" "c \<le> 24" "0 \<le> e" "e \<le> 3"
  shows "days_before_year (a * 400 + b * 100 + c * 4 + e + 1)
         = a * 146097 + b * 36524 + c * 1461 + e * 365"
proof -
  define Y where "Y = a * 400 + b * 100 + c * 4 + e"
  have "Y = 4 * (a * 100 + b * 25 + c) + e"
    by (simp add: Y_def)
  then have d4: "Y div 4 = a * 100 + b * 25 + c"
    by (rule int_div_pos_eq) (use assms in simp_all)
  have "Y = 100 * (a * 4 + b) + (c * 4 + e)"
    by (simp add: Y_def)
  then have d100: "Y div 100 = a * 4 + b"
    by (rule int_div_pos_eq) (use assms in simp_all)
  have "Y = 400 * a + (b * 100 + c * 4 + e)"
    by (simp add: Y_def)
  then have d400: "Y div 400 = a"
    by (rule int_div_pos_eq) (use assms in simp_all)
  have "days_before_year (Y + 1) = Y * 365 + Y div 4 - Y div 100 + Y div 400"
    by (simp add: days_before_year_def)
  also have "\<dots> = a * 146097 + b * 36524 + c * 1461 + e * 365"
    unfolding d4 d100 d400 by (simp add: Y_def)
  finally show ?thesis
    by (simp add: Y_def)
qed

lemma mod_succ_zero:
  fixes k q r :: int
  assumes "0 \<le> r" and "r < k"
  shows "(k * q + r + 1) mod k = 0 \<longleftrightarrow> r + 1 = k"
proof (cases "r + 1 = k")
  case True
  then have "k * q + r + 1 = k * (q + 1) + 0"
    by (simp add: algebra_simps)
  then have "(k * q + r + 1) mod k = 0"
    by (rule int_mod_pos_eq) (use assms in simp_all)
  with True show ?thesis
    by simp
next
  case False
  have "k * q + r + 1 = k * q + (r + 1)"
    by simp
  then have "(k * q + r + 1) mod k = r + 1"
    by (rule int_mod_pos_eq) (use assms False in simp_all)
  with False assms show ?thesis
    by simp
qed

lemma leap_split:
  fixes a b c e :: int
  assumes "0 \<le> b" "b \<le> 3" "0 \<le> c" "c \<le> 24" "0 \<le> e" "e \<le> 3"
  shows "is_leap (a * 400 + b * 100 + c * 4 + e + 1) \<longleftrightarrow> e = 3 \<and> (c \<noteq> 24 \<or> b = 3)"
proof -
  define Y1 where "Y1 = a * 400 + b * 100 + c * 4 + e + 1"
  have "Y1 = 4 * (a * 100 + b * 25 + c) + e + 1"
    by (simp add: Y1_def)
  then have m4: "Y1 mod 4 = 0 \<longleftrightarrow> e + 1 = 4"
    using mod_succ_zero [of e 4 "a * 100 + b * 25 + c"] assms by simp
  have "Y1 = 100 * (a * 4 + b) + (c * 4 + e) + 1"
    by (simp add: Y1_def)
  then have m100: "Y1 mod 100 = 0 \<longleftrightarrow> c * 4 + e + 1 = 100"
    using mod_succ_zero [of "c * 4 + e" 100 "a * 4 + b"] assms by simp
  have "Y1 = 400 * a + (b * 100 + c * 4 + e) + 1"
    by (simp add: Y1_def)
  then have m400: "Y1 mod 400 = 0 \<longleftrightarrow> b * 100 + c * 4 + e + 1 = 400"
    using mod_succ_zero [of "b * 100 + c * 4 + e" 400 a] assms by simp
  have "is_leap Y1 \<longleftrightarrow> e + 1 = 4 \<and> (c * 4 + e + 1 \<noteq> 100 \<or> b * 100 + c * 4 + e + 1 = 400)"
    unfolding is_leap_def m4 m100 m400 by simp
  also have "\<dots> \<longleftrightarrow> e = 3 \<and> (c \<noteq> 24 \<or> b = 3)"
    using assms by auto
  finally show ?thesis
    by (simp add: Y1_def)
qed
lemma month_part:
  fixes r m y :: int
  assumes r: "0 \<le> r" "r < 365" and m: "m = (r + 50) div 32"
  shows "if r < days_before_month y m
         then 1 \<le> m - 1 \<and> m - 1 \<le> 12
              \<and> days_before_month y (m - 1) \<le> r
              \<and> r < days_before_month y (m - 1) + days_in_month y (m - 1)
              \<and> days_before_month y m = days_before_month y (m - 1) + days_in_month y (m - 1)
         else 1 \<le> m \<and> m \<le> 12
              \<and> days_before_month y m \<le> r
              \<and> r < days_before_month y m + days_in_month y m"
proof -
  define t where "t = (r + 50) mod 32"
  have "32 * m + t = r + 50"
    by (simp add: m t_def)
  moreover have "0 \<le> t" "t < 32"
    by (simp_all add: t_def)
  ultimately have rng: "m * 32 - 50 \<le> r" "r < m * 32 - 18"
    by linarith+
  with r have "1 \<le> m" "m \<le> 12"
    by linarith+
  then show ?thesis
    using rng r
    by (cases m rule: month_cases)
       (simp_all add: days_before_month_def days_in_month_def DAYS_BEFORE_MONTH_def
          DAYS_IN_MONTH_def)
qed
lemma dim_alt:
  "days_in_month y k = DAYS_IN_MONTH ! nat k + (if k = 2 \<and> is_leap y then 1 else 0)"
  by (simp add: days_in_month_def DAYS_IN_MONTH_def)

lemma year_upper:
  assumes "days_before_year y < n" and "n \<le> MAXORDINAL"
  shows "y \<le> MAXYEAR"
proof (rule ccontr)
  assume "\<not> y \<le> MAXYEAR"
  then have "10000 \<le> y"
    by (simp add: MAXYEAR_def)
  then have "days_before_year 10000 \<le> days_before_year y"
    by (rule dby_mono)
  moreover have "days_before_year 10000 = 3652059"
    by (simp add: days_before_year_def)
  ultimately show False
    using assms by (simp add: MAXORDINAL_def)
qed

lemma ord2ymd_correct:
  assumes n: "1 \<le> n" "n \<le> MAXORDINAL"
  shows "case ord2ymd n of (y, m, d) \<Rightarrow> check_date_fields y m d \<and> ymd2ord y m d = n"
proof -
  define n0 where "n0 = n - 1"
  define n400 where "n400 = n0 div 146097"
  define r1 where "r1 = n0 mod 146097"
  define n100 where "n100 = r1 div 36524"
  define r2 where "r2 = r1 mod 36524"
  define n4 where "n4 = r2 div 1461"
  define r3 where "r3 = r2 mod 1461"
  define n1 where "n1 = r3 div 365"
  define r4 where "r4 = r3 mod 365"
  define y where "y = n400 * 400 + 1 + n100 * 100 + n4 * 4 + n1"
  define m where "m = (r4 + 50) div 32"
  define lpy where "lpy \<longleftrightarrow> n1 = 3 \<and> (n4 \<noteq> 24 \<or> n100 = 3)"
  note defs = lpy_def m_def y_def r4_def n1_def r3_def n4_def r2_def n100_def r1_def n400_def
    n0_def
  have o: "ord2ymd n =
     (if n1 = 4 \<or> n100 = 4 then (y - 1, 12, 31)
      else
        let preceding = DAYS_BEFORE_MONTH ! nat m + (if m > 2 \<and> lpy then 1 else 0)
        in if preceding > r4
           then (y, m - 1,
                 r4 - (preceding - (DAYS_IN_MONTH ! nat (m - 1)
                                   + (if m - 1 = 2 \<and> lpy then 1 else 0))) + 1)
           else (y, m, r4 - preceding + 1))"
    unfolding ord2ymd_def Let_def defs DI400Y_def DI100Y_def DI4Y_def by (rule refl)
  have e0: "n0 = n400 * 146097 + r1"
    by (simp add: n400_def r1_def)
  have e1: "r1 = n100 * 36524 + r2"
    by (simp add: n100_def r2_def)
  have e2: "r2 = n4 * 1461 + r3"
    by (simp add: n4_def r3_def)
  have e3: "r3 = n1 * 365 + r4"
    by (simp add: n1_def r4_def)
  have b1: "0 \<le> r1" "r1 < 146097"
    by (simp_all add: r1_def)
  have b2: "0 \<le> r2" "r2 < 36524"
    by (simp_all add: r2_def)
  have b3: "0 \<le> r3" "r3 < 1461"
    by (simp_all add: r3_def)
  have b4: "0 \<le> r4" "r4 < 365"
    by (simp_all add: r4_def)
  have q400: "0 \<le> n400"
    using n(1) by (simp add: n400_def n0_def pos_imp_zdiv_nonneg_iff)
  have q100: "0 \<le> n100" "n100 \<le> 4"
    using e1 b1 b2 by linarith+
  have q4: "0 \<le> n4" "n4 \<le> 24"
    using e2 b2 b3 by linarith+
  have q1: "0 \<le> n1" "n1 \<le> 4"
    using e3 b3 b4 by linarith+
  have nn: "n = n400 * 146097 + n100 * 36524 + n4 * 1461 + n1 * 365 + r4 + 1"
    using e0 e1 e2 e3 by (simp add: n0_def)
  consider (century) "n100 = 4" | (cycle) "n100 \<le> 3" "n1 = 4" | (plain) "n100 \<le> 3" "n1 \<le> 3"
    using q100 q1 by linarith
  then show ?thesis
  proof cases
    case century
    then have "r2 = 0"
      using e1 b1 b2 by linarith
    then have z: "n4 = 0" "n1 = 0" "r4 = 0"
      by (simp_all add: n4_def r3_def n1_def r4_def)
    have yy: "y - 1 = n400 * 400 + 3 * 100 + 24 * 4 + 3 + 1"
      by (simp add: y_def century z)
    have dby: "days_before_year (y - 1) = n400 * 146097 + 3 * 36524 + 24 * 1461 + 3 * 365"
      unfolding yy by (rule dby_split) simp_all
    have lp: "is_leap (y - 1)"
      unfolding yy by (subst leap_split) simp_all
    have ord: "ymd2ord (y - 1) 12 31 = n"
      by (simp add: ymd2ord_def dby lp days_before_month_def DAYS_BEFORE_MONTH_def nn century z)
    have "days_before_year (y - 1) < n"
      using ord by (simp add: ymd2ord_def lp days_before_month_def DAYS_BEFORE_MONTH_def)
    then have "y - 1 \<le> MAXYEAR"
      using n(2) by (rule year_upper)
    moreover have "MINYEAR \<le> y - 1"
      using q400 by (simp add: yy MINYEAR_def)
    ultimately have "check_date_fields (y - 1) 12 31"
      by (simp add: check_date_fields_def days_in_month_def DAYS_IN_MONTH_def)
    with ord show ?thesis
      by (simp add: o century)
  next
    case cycle
    then have r4z: "r4 = 0"
      using e3 b3 b4 by linarith
    have c23: "n4 \<le> 23"
      using e2 e3 b2 b4 cycle(2) by linarith
    have yy: "y - 1 = n400 * 400 + n100 * 100 + n4 * 4 + 3 + 1"
      by (simp add: y_def cycle)
    have dby: "days_before_year (y - 1) = n400 * 146097 + n100 * 36524 + n4 * 1461 + 3 * 365"
      unfolding yy by (rule dby_split) (use q100 q4 cycle in simp_all)
    have "is_leap (y - 1) \<longleftrightarrow> (3::int) = 3 \<and> (n4 \<noteq> 24 \<or> n100 = 3)"
      unfolding yy by (rule leap_split) (use q100 q4 cycle in simp_all)
    then have lp: "is_leap (y - 1)"
      using c23 by simp
    have ord: "ymd2ord (y - 1) 12 31 = n"
      by (simp add: ymd2ord_def dby lp days_before_month_def DAYS_BEFORE_MONTH_def nn cycle r4z)
    have "days_before_year (y - 1) < n"
      using ord by (simp add: ymd2ord_def lp days_before_month_def DAYS_BEFORE_MONTH_def)
    then have "y - 1 \<le> MAXYEAR"
      using n(2) by (rule year_upper)
    moreover have "MINYEAR \<le> y - 1"
      using q400 q100 q4 by (simp add: yy MINYEAR_def)
    ultimately have "check_date_fields (y - 1) 12 31"
      by (simp add: check_date_fields_def days_in_month_def DAYS_IN_MONTH_def)
    with ord show ?thesis
      by (simp add: o cycle)
  next
    case plain
    have yy: "y = n400 * 400 + n100 * 100 + n4 * 4 + n1 + 1"
      by (simp add: y_def)
    have dby: "days_before_year y = n400 * 146097 + n100 * 36524 + n4 * 1461 + n1 * 365"
      unfolding yy by (rule dby_split) (use q100 q4 q1 plain in simp_all)
    have "is_leap y \<longleftrightarrow> n1 = 3 \<and> (n4 \<noteq> 24 \<or> n100 = 3)"
      unfolding yy by (rule leap_split) (use q100 q4 q1 plain in simp_all)
    then have lp: "is_leap y = lpy"
      by (simp only: lpy_def)
    have nd: "n = days_before_year y + r4 + 1"
      by (simp add: dby nn)
    have "days_before_year y < n"
      using nd b4 by simp
    then have "y \<le> MAXYEAR"
      using n(2) by (rule year_upper)
    moreover have "MINYEAR \<le> y"
      using q400 q100 q4 q1 by (simp add: yy MINYEAR_def)
    ultimately have yr: "MINYEAR \<le> y \<and> y \<le> MAXYEAR"
      by simp
    have o': "ord2ymd n =
       (if r4 < days_before_month y m
        then (y, m - 1, r4 - (days_before_month y m - days_in_month y (m - 1)) + 1)
        else (y, m, r4 - days_before_month y m + 1))"
      using plain by (simp add: o Let_def lp days_before_month_def dim_alt)
    note mp = month_part [OF b4 m_def, of y]
    show ?thesis
    proof (cases "r4 < days_before_month y m")
      case True
      with mp have k: "1 \<le> m - 1" "m - 1 \<le> 12" "days_before_month y (m - 1) \<le> r4"
          "r4 < days_before_month y (m - 1) + days_in_month y (m - 1)"
          "days_before_month y m = days_before_month y (m - 1) + days_in_month y (m - 1)"
        by simp_all
      have d: "r4 - (days_before_month y m - days_in_month y (m - 1)) + 1
               = r4 - days_before_month y (m - 1) + 1"
        using k(5) by simp
      have "check_date_fields y (m - 1) (r4 - days_before_month y (m - 1) + 1)"
        using yr k by (simp add: check_date_fields_def)
      moreover have "ymd2ord y (m - 1) (r4 - days_before_month y (m - 1) + 1) = n"
        by (simp add: ymd2ord_def nd)
      ultimately show ?thesis
        using True by (simp add: o' d)
    next
      case False
      with mp have k: "1 \<le> m" "m \<le> 12" "days_before_month y m \<le> r4"
          "r4 < days_before_month y m + days_in_month y m"
        by simp_all
      have "check_date_fields y m (r4 - days_before_month y m + 1)"
        using yr k by (simp add: check_date_fields_def)
      moreover have "ymd2ord y m (r4 - days_before_month y m + 1) = n"
        by (simp add: ymd2ord_def nd)
      ultimately show ?thesis
        using False by (simp add: o')
    qed
  qed
qed
subsection \<open>Subtracting the lead time\<close>

lemma new_timedelta_ok_wide:
  assumes "\<bar>d\<bar> \<le> 800000000" and "\<bar>s\<bar> \<le> 8640000000000" and "\<bar>us\<bar> \<le> 2000000"
  shows "\<exists>t. new_timedelta d s us = Inr t"
proof -
  define q1 where "q1 = us div 1000000"
  define q2 where "q2 = (s + q1) div 86400"
  have "- 2 \<le> q1 \<and> q1 \<le> 2"
    unfolding q1_def using assms(3) by arith
  then have "- 100000001 \<le> q2 \<and> q2 \<le> 100000001"
    unfolding q2_def using assms(2) by arith
  then have "\<bar>d + q2\<bar> \<le> 999999999"
    using assms(1) by arith
  then show ?thesis
    by (simp add: new_timedelta_def Let_def q1_def q2_def)
qed

lemma timedelta_days_bounds:
  assumes "normalised t" and "lo * 86400000000 \<le> timedelta_us t"
    and "timedelta_us t < (hi + 1) * 86400000000"
  shows "lo \<le> days t" and "days t \<le> hi"
proof -
  from assms(1) have b: "0 \<le> seconds t" "seconds t < 86400" "0 \<le> microseconds t"
      "microseconds t < 1000000"
    by (simp_all add: normalised_def)
  have e: "timedelta_us t = days t * 86400000000 + seconds t * 1000000 + microseconds t"
    by (simp add: timedelta_us_def algebra_simps)
  have l: "lo * 86400000000 \<le> days t * 86400000000 + seconds t * 1000000 + microseconds t"
    using assms(2) by (simp only: e)
  have h: "days t * 86400000000 + seconds t * 1000000 + microseconds t
           < hi * 86400000000 + 86400000000"
    using assms(3) by (simp only: e) (simp add: algebra_simps)
  show "lo \<le> days t"
    using l b by linarith
  show "days t \<le> hi"
    using h b by linarith
qed

lemma lead_time:
  assumes "0 \<le> L" and "L \<le> 100000000"
  shows "\<exists>lead x. timedelta_hours L = Inr lead \<and> timedelta_neg lead = Inr x
           \<and> normalised x \<and> timedelta_us x = - (L * 3600000000)
           \<and> \<bar>days x\<bar> \<le> 400000000"
proof -
  have "\<bar>0::int\<bar> \<le> 800000000" and "\<bar>L * 3600\<bar> \<le> 8640000000000" and "\<bar>0::int\<bar> \<le> 1000000"
    using assms by simp_all
  then obtain lead where lead: "new_timedelta 0 (L * 3600) 0 = Inr lead"
    using new_timedelta_ok by blast
  have lus: "timedelta_us lead = L * 3600000000"
    using new_timedelta_us(1) [OF lead] by simp
  have ln: "normalised lead"
    using lead by (rule new_timedelta_us)
  have llo: "0 * 86400000000 \<le> timedelta_us lead"
    using assms(1) by (simp add: lus)
  have lhi: "timedelta_us lead < (300000000 + 1) * 86400000000"
    using assms(2) by (simp add: lus)
  have ld: "0 \<le> days lead" "days lead \<le> 300000000"
    using timedelta_days_bounds [OF ln llo lhi] by simp_all
  from ln have lb: "0 \<le> seconds lead" "seconds lead < 86400" "0 \<le> microseconds lead"
      "microseconds lead < 1000000"
    by (simp_all add: normalised_def)
  have "\<bar>- days lead\<bar> \<le> 800000000" and "\<bar>- seconds lead\<bar> \<le> 8640000000000"
    and "\<bar>- microseconds lead\<bar> \<le> 1000000"
    using ld lb by simp_all
  then obtain x where x: "new_timedelta (- days lead) (- seconds lead) (- microseconds lead) = Inr x"
    using new_timedelta_ok by blast
  have "timedelta_us x = (- days lead * 86400 + - seconds lead) * 1000000 + - microseconds lead"
    using x by (rule new_timedelta_us)
  also have "\<dots> = - timedelta_us lead"
    by (simp add: timedelta_us_def algebra_simps)
  finally have xus: "timedelta_us x = - (L * 3600000000)"
    by (simp add: lus)
  have xn: "normalised x"
    using x by (rule new_timedelta_us)
  have xlo: "(- 400000000) * 86400000000 \<le> timedelta_us x"
    using assms(2) by (simp add: xus)
  have xhi: "timedelta_us x < (0 + 1) * 86400000000"
    using assms(1) by (simp add: xus)
  have "- 400000000 \<le> days x" "days x \<le> 0"
    using timedelta_days_bounds [OF xn xlo xhi] by simp_all
  then have "\<bar>days x\<bar> \<le> 400000000"
    by simp
  with lead x xn xus show ?thesis
    by (simp add: timedelta_hours_def timedelta_neg_def)
qed

lemma datetime_add_exact:
  assumes v: "valid_datetime D" and nx: "normalised x" and dx: "\<bar>days x\<bar> \<le> 400000000"
    and lo: "86400000000 \<le> instant_us D + timedelta_us x"
    and hi: "instant_us D + timedelta_us x < 3652060 * 86400000000"
  shows "\<exists>r. datetime_add D x = Inr r \<and> valid_datetime r \<and> tzinfo r = tzinfo D
             \<and> instant_us r = instant_us D + timedelta_us x"
proof -
  note bD = valid_datetime_bounds [OF v]
  from nx have bx: "0 \<le> seconds x" "seconds x < 86400" "0 \<le> microseconds x"
      "microseconds x < 1000000"
    by (simp_all add: normalised_def)
  define tod where "tod = hour D * 3600 + minute D * 60 + second D"
  have tb: "0 \<le> tod" "tod < 86400"
    unfolding tod_def using bD(1-6) by linarith+
  have d0: "new_timedelta (toordinal D) tod (microsecond D)
            = Inr \<lparr>days = toordinal D, seconds = tod, microseconds = microsecond D\<rparr>"
    using tb bD(7-10) by (simp add: new_timedelta_def Let_def)
  have "\<bar>toordinal D + days x\<bar> \<le> 800000000"
    using bD(9,10) dx by linarith
  moreover have "\<bar>tod + seconds x\<bar> \<le> 8640000000000"
    using tb bx by linarith
  moreover have "\<bar>microsecond D + microseconds x\<bar> \<le> 2000000"
    using bD(7,8) bx by linarith
  ultimately obtain delta where delta:
      "new_timedelta (toordinal D + days x) (tod + seconds x) (microsecond D + microseconds x)
       = Inr delta"
    using new_timedelta_ok_wide by blast
  have "timedelta_us delta = ((toordinal D + days x) * 86400 + (tod + seconds x)) * 1000000
          + (microsecond D + microseconds x)"
    using delta by (rule new_timedelta_us)
  also have "\<dots> = instant_us D + timedelta_us x"
    by (simp add: instant_us_def timedelta_us_def tod_def algebra_simps)
  finally have dus: "timedelta_us delta = instant_us D + timedelta_us x" .
  have dn: "normalised delta"
    using delta by (rule new_timedelta_us)
  have dlo: "1 * 86400000000 \<le> timedelta_us delta"
    using lo by (simp add: dus)
  have dhi: "timedelta_us delta < (3652059 + 1) * 86400000000"
    using hi by (simp add: dus)
  have dd: "1 \<le> days delta" "days delta \<le> 3652059"
    using timedelta_days_bounds [OF dn dlo dhi] by simp_all
  from dn have db: "0 \<le> seconds delta" "seconds delta < 86400" "0 \<le> microseconds delta"
      "microseconds delta < 1000000"
    by (simp_all add: normalised_def)
  define hh where "hh = seconds delta div 3600"
  define rem where "rem = seconds delta mod 3600"
  define mm where "mm = rem div 60"
  define ss where "ss = rem mod 60"
  have s1: "seconds delta = hh * 3600 + rem"
    by (simp add: hh_def rem_def)
  have s2: "rem = mm * 60 + ss"
    by (simp add: mm_def ss_def)
  have rb: "0 \<le> rem" "rem < 3600" "0 \<le> ss" "ss < 60"
    by (simp_all add: rem_def ss_def)
  have hb: "0 \<le> hh" "hh \<le> 23"
    using s1 rb db by linarith+
  have mb: "0 \<le> mm" "mm \<le> 59"
    using s2 rb by linarith+
  obtain y m d where ymd: "ord2ymd (days delta) = (y, m, d)"
    by (cases "ord2ymd (days delta)") auto
  have "case ord2ymd (days delta) of (y, m, d) \<Rightarrow>
          check_date_fields y m d \<and> ymd2ord y m d = days delta"
    using dd by (intro ord2ymd_correct) (simp_all add: MAXORDINAL_def)
  then have cd: "check_date_fields y m d" and od: "ymd2ord y m d = days delta"
    by (simp_all add: ymd)
  define r where "r = \<lparr>year = y, month = m, day = d, hour = hh, minute = mm,
                          second = ss, microsecond = microseconds delta, tzinfo = tzinfo D\<rparr>"
  have res: "datetime_add D x = Inr r"
    using dd
    by (simp add: datetime_add_def tod_def [symmetric] d0 timedelta_add_def delta Let_def
          MAXORDINAL_def ymd r_def hh_def mm_def ss_def rem_def)
  have vr: "valid_datetime r"
    using cd hb mb rb db by (simp add: valid_datetime_def r_def check_time_fields_def)
  have "instant_us r = (days delta * 86400 + (hh * 3600 + mm * 60 + ss)) * 1000000
          + microseconds delta"
    by (simp add: instant_us_def r_def toordinal_def od algebra_simps)
  also have "hh * 3600 + mm * 60 + ss = seconds delta"
    using s1 s2 by simp
  finally have "instant_us r = timedelta_us delta"
    by (simp add: timedelta_us_def)
  with dus have "instant_us r = instant_us D + timedelta_us x"
    by simp
  moreover have "tzinfo r = tzinfo D"
    by (simp add: r_def)
  ultimately show ?thesis
    using res vr by blast
qed
lemma instant_upper:
  assumes "valid_datetime D"
  shows "instant_us D < 3652060 * 86400000000"
proof -
  note b = valid_datetime_bounds [OF assms]
  have "instant_us D = toordinal D * 86400000000 + hour D * 3600000000 + minute D * 60000000
      + second D * 1000000 + microsecond D"
    by (simp add: instant_us_def algebra_simps)
  with b show ?thesis
    by linarith
qed

lemma remind_time_examples:
  "remind_time_of dt_0310_0900 (Some 2) = Inr dt_0310_0700"
  "remind_time_of dt_0001_0200 (Some 2) = Inr dt_0001"
  "remind_time_of dt_0001 (Some 1) = Inl OverflowError"
  by code_simp+

lemma instant_us_more_examples:
  "instant_us dt_0310_0900 = 63877280400000000"
  "instant_us dt_0001_0200 = 93600000000"
  "instant_us dt_0001 = 86400000000"
  by code_simp+

lemma valid_more_examples:
  "valid_datetime dt_0310_0900" "valid_datetime dt_0001_0200" "valid_datetime dt_0001"
  by code_simp+

text \<open>
  C3. For a due date \<open>D\<close> that the constructor accepts and a lead of \<open>L \<ge> 0\<close> hours such that
  \<open>D\<close> minus \<open>L\<close> hours is a \<^verbatim>\<open>datetime\<close>, that is, not before 0001-01-01T00:00:00, the
  first one there is, \<^verbatim>\<open>dt_obj - dt.timedelta(hours=L)\<close> returns a \<^verbatim>\<open>datetime\<close> whose fields
  are in range, of the same kind as \<open>D\<close>, and whose point of time is that of \<open>D\<close> less
  exactly \<open>L\<close> times 3 600 000 000 microseconds: the arithmetic is on integers and
  nothing is rounded. (Before the first \<^verbatim>\<open>datetime\<close> there is no value to return, and the
  subtraction raises \<^verbatim>\<open>OverflowError\<close>.)
\<close>

theorem remind_time_exact:
  assumes "valid_datetime D" and "0 \<le> L"
    and "86400000000 \<le> instant_us D - L * 3600000000"
  shows "\<exists>r. remind_time_of D (Some L) = Inr r \<and> valid_datetime r \<and> tzinfo r = tzinfo D
             \<and> instant_us r = instant_us D - L * 3600000000"
proof -
  have up: "instant_us D < 3652060 * 86400000000"
    using assms(1) by (rule instant_upper)
  have "L \<le> 100000000"
    using assms(3) up by linarith
  with assms(2) obtain lead x where lead: "timedelta_hours L = Inr lead"
    and x: "timedelta_neg lead = Inr x" "normalised x"
      "timedelta_us x = - (L * 3600000000)" "\<bar>days x\<bar> \<le> 400000000"
    using lead_time by blast
  have lo: "86400000000 \<le> instant_us D + timedelta_us x"
    using assms(3) by (simp add: x(3))
  have hi: "instant_us D + timedelta_us x < 3652060 * 86400000000"
    using up assms(2) by (simp add: x(3))
  obtain r where r: "datetime_add D x = Inr r" "valid_datetime r" "tzinfo r = tzinfo D"
      "instant_us r = instant_us D + timedelta_us x"
    using datetime_add_exact [OF assms(1) x(2) x(4) lo hi] by blast
  have "remind_time_of D (Some L) = Inr r"
    by (simp add: remind_time_of_def lead datetime_sub_timedelta_def x(1) r(1))
  moreover have "instant_us r = instant_us D - L * 3600000000"
    by (simp add: r(4) x(3))
  ultimately show ?thesis
    using r(2,3) by blast
qed

theorem remind_time_exact_witness:
  "valid_datetime dt_0310_0900 \<and> (0::int) \<le> 2
   \<and> 86400000000 \<le> instant_us dt_0310_0900 - 2 * 3600000000
   \<and> remind_time_of dt_0310_0900 (Some 2) = Inr dt_0310_0700
   \<and> instant_us dt_0310_0700 = instant_us dt_0310_0900 - 2 * 3600000000
   \<and> valid_datetime dt_0001_0200
   \<and> 86400000000 \<le> instant_us dt_0001_0200 - 2 * 3600000000
   \<and> remind_time_of dt_0001_0200 (Some 2) = Inr dt_0001
   \<and> instant_us dt_0001 = instant_us dt_0001_0200 - 2 * 3600000000"
proof -
  have z: "(0::int) \<le> 2"
    by simp
  have lo1: "86400000000 \<le> instant_us dt_0310_0900 - 2 * 3600000000"
    by (simp add: instant_us_more_examples)
  have lo2: "86400000000 \<le> instant_us dt_0001_0200 - 2 * 3600000000"
    by (simp add: instant_us_more_examples)
  obtain r1 where r1: "remind_time_of dt_0310_0900 (Some 2) = Inr r1"
      "instant_us r1 = instant_us dt_0310_0900 - 2 * 3600000000"
    using remind_time_exact [OF valid_more_examples(1) z lo1] by blast
  from r1(1) have "r1 = dt_0310_0700"
    by (simp add: remind_time_examples)
  with r1(2) have a: "instant_us dt_0310_0700 = instant_us dt_0310_0900 - 2 * 3600000000"
    by simp
  obtain r2 where r2: "remind_time_of dt_0001_0200 (Some 2) = Inr r2"
      "instant_us r2 = instant_us dt_0001_0200 - 2 * 3600000000"
    using remind_time_exact [OF valid_more_examples(2) z lo2] by blast
  from r2(1) have "r2 = dt_0001"
    by (simp add: remind_time_examples)
  with r2(2) have b: "instant_us dt_0001 = instant_us dt_0001_0200 - 2 * 3600000000"
    by simp
  show ?thesis
    by (intro conjI)
       (rule valid_more_examples(1), rule z, rule lo1, rule remind_time_examples(1), rule a,
        rule valid_more_examples(2), rule lo2, rule remind_time_examples(2), rule b)
qed

end
